theory Spec2Isabelle
  imports Main "HOL-Library.Word"
begin

section \<open>JavaScript strings\<close>

text \<open>
  A JavaScript string is a sequence of 16-bit code units. \<open>split\<close>, \<open>trim\<close> and the
  regular expression of \<open>buildLineMapping\<close> (which has no \<open>u\<close> flag) all work on code units.
\<close>

type_synonym jschar = "16 word"
type_synonym jsstring = "jschar list"

definition js :: "string \<Rightarrow> jsstring" where
  \<comment> \<open>an ASCII literal as a JavaScript string\<close>
  "js s = map of_char s"

definition DQUOTE :: jschar where "DQUOTE = 0x22"
definition COLON :: jschar where "COLON = 0x3A"
definition NEWLINE :: jschar where "NEWLINE = 0x0A"

subsection \<open>\<open>String.prototype.split('\n')\<close>\<close>

text \<open>
  \<open>split_loop cur s\<close> cuts \<open>s\<close> at every U+000A; \<open>cur\<close> holds the code units of the line being
  read, last one first. The empty string gives one empty line, as in JavaScript.
\<close>

fun split_loop :: "jsstring \<Rightarrow> jsstring \<Rightarrow> jsstring list" where
  "split_loop cur [] = [rev cur]"
| "split_loop cur (c # cs) =
     (if c = NEWLINE then rev cur # split_loop [] cs else split_loop (c # cur) cs)"

definition split_nl :: "jsstring \<Rightarrow> jsstring list" where
  "split_nl s = split_loop [] s"

subsection \<open>\<open>String.prototype.trim\<close>\<close>

text \<open>
  \<open>trim\<close> removes, at both ends, the code units that ECMAScript calls WhiteSpace or
  LineTerminator: TAB, LF, VT, FF, CR, SP, NBSP, U+1680, U+2000 to U+200A, LS, PS, U+202F,
  U+205F, U+3000 and the BOM.
\<close>

definition is_js_space :: "jschar \<Rightarrow> bool" where
  "is_js_space c \<longleftrightarrow>
     c = 0x09 \<or> c = 0x0A \<or> c = 0x0B \<or> c = 0x0C \<or> c = 0x0D \<or> c = 0x20 \<or> c = 0xA0 \<or>
     c = 0x1680 \<or> (0x2000 \<le> c \<and> c \<le> 0x200A) \<or> c = 0x2028 \<or> c = 0x2029 \<or>
     c = 0x202F \<or> c = 0x205F \<or> c = 0x3000 \<or> c = 0xFEFF"

definition trim :: "jsstring \<Rightarrow> jsstring" where
  "trim s = rev (dropWhile is_js_space (rev (dropWhile is_js_space s)))"

subsection \<open>The regular expression \<open>/"([^"]+)":/\<close>\<close>

text \<open>
  \<open>key_at s\<close> is the match of the pattern at the very start of \<open>s\<close>: a quote, one or more
  code units other than a quote, a quote, a colon. The class \<open>[^"]\<close> cannot step over a
  quote, so the group is the whole run of non-quotes after the opening quote, and there is
  nothing to backtrack into. The result is capture group 1.
\<close>

fun key_at :: "jsstring \<Rightarrow> jsstring option" where
  "key_at [] = None"
| "key_at (c # cs) =
     (if c = DQUOTE then
        (let k = takeWhile (\<lambda>x. x \<noteq> DQUOTE) cs in
         if k = [] then None
         else (case dropWhile (\<lambda>x. x \<noteq> DQUOTE) cs of
                 q # d # rest \<Rightarrow> if d = COLON then Some k else None
               | _ \<Rightarrow> None))
      else None)"

text \<open>
  \<open>match_key s\<close> is \<open>s.match(/"([^"]+)":/)\<close>, reduced to what the caller reads: \<open>None\<close> for
  \<open>null\<close>, else capture group 1 of the leftmost match. The pattern is not anchored: every
  start position is tried, from left to right.
\<close>

fun match_key :: "jsstring \<Rightarrow> jsstring option" where
  "match_key [] = None"
| "match_key (c # cs) =
     (case key_at (c # cs) of Some k \<Rightarrow> Some k | None \<Rightarrow> match_key cs)"

section \<open>\<open>buildLineMapping\<close>\<close>

text \<open>
  The inner loop \<open>for (let i = origIdx; i < origLines.length && i < origIdx + 20; i++)\<close>:
  \<open>find_match\<close> returns the index at which the loop reaches \<open>break\<close>, or \<open>None\<close> when the
  loop runs out.
\<close>

function find_match :: "jsstring list \<Rightarrow> jsstring option \<Rightarrow> nat \<Rightarrow> nat \<Rightarrow> nat option" where
  "find_match origLines parsedKey origIdx i =
     (if i < length origLines \<and> i < origIdx + 20 then
        (let origLine = trim (origLines ! i);
             origKey = match_key origLine
         in if parsedKey \<noteq> None \<and> origKey \<noteq> None \<and> the parsedKey = the origKey
            then Some i
            else find_match origLines parsedKey origIdx (i + 1))
      else None)"
  by pat_completeness auto
termination
  by (relation "measure (\<lambda>(origLines, parsedKey, origIdx, i). origIdx + 20 - i)") auto

declare find_match.simps [simp del]

text \<open>
  One turn of the outer loop, on the resolved line \<open>l\<close> of index \<open>parsedIdx\<close>. The state is
  the cursor \<open>origIdx\<close> and the \<open>Map\<close> built so far; the keys of the \<open>Map\<close> are set once each,
  so it is modelled by its lookup function.
\<close>

type_synonym line_map = "nat \<rightharpoonup> nat"

definition line_step :: "jsstring list \<Rightarrow> nat \<Rightarrow> jsstring \<Rightarrow> nat \<times> line_map \<Rightarrow> nat \<times> line_map" where
  "line_step origLines parsedIdx l st =
     (let origIdx = fst st; mapping = snd st;
          parsedLine = trim l;
          parsedKey = match_key parsedLine
      in case find_match origLines parsedKey origIdx origIdx of
           Some i \<Rightarrow> (i + 1, mapping(parsedIdx + 1 \<mapsto> i + 1))
         | None \<Rightarrow> (origIdx, mapping))"

fun map_loop :: "jsstring list \<Rightarrow> jsstring list \<Rightarrow> nat \<Rightarrow> nat \<times> line_map \<Rightarrow> nat \<times> line_map" where
  "map_loop origLines [] parsedIdx st = st"
| "map_loop origLines (l # ls) parsedIdx st =
     map_loop origLines ls (parsedIdx + 1) (line_step origLines parsedIdx l st)"

definition buildLineMapping :: "jsstring \<Rightarrow> jsstring \<Rightarrow> line_map" where
  "buildLineMapping originalStr parsedStr =
     (let origLines = split_nl originalStr;
          parsedLines = split_nl parsedStr
      in snd (map_loop origLines parsedLines 0 (0, Map.empty)))"

section \<open>JSON values\<close>

text \<open>
  The values that \<open>JSON.parse\<close> returns and \<open>parseNestedJson\<close> walks: \<open>null\<close>, booleans,
  numbers, strings, arrays and plain objects. A number carries the numeric literal that
  denotes it; the IEEE double is a function of the literal and plays no part in what
  follows. An object is the list of its own properties in the order in which
  \<open>Object.entries\<close> enumerates them.
\<close>

type_synonym 'v props = "(jsstring \<times> 'v) list"

datatype json =
    JNull
  | JBool bool
  | JNumber jsstring
  | JString jsstring
  | JArray "json list"
  | JObject "json props"

subsection \<open>Own properties of an object\<close>

text \<open>
  ECMAScript enumerates the own string keys of an ordinary object in two groups: first the
  keys that are array indices (canonical numeric strings up to \<open>2^32 - 2\<close>), in ascending
  numeric order, then all other keys in the order of their creation. \<open>set_prop\<close> is
  \<open>CreateDataProperty\<close> on that list: an existing key keeps its place and takes the new
  value, a new index key goes to its numeric place, any other new key goes to the end.
\<close>

definition is_digit :: "jschar \<Rightarrow> bool" where
  "is_digit c \<longleftrightarrow> 0x30 \<le> c \<and> c \<le> 0x39"

definition digits_value :: "jsstring \<Rightarrow> int" where
  "digits_value ds = foldl (\<lambda>n c. 10 * n + (uint c - 48)) 0 ds"

definition array_index :: "jsstring \<Rightarrow> int option" where
  "array_index k =
     (if k \<noteq> [] \<and> list_all is_digit k \<and> (length k = 1 \<or> hd k \<noteq> 0x30) \<and>
         digits_value k \<le> 4294967294
      then Some (digits_value k) else None)"

fun insert_index :: "int \<Rightarrow> jsstring \<Rightarrow> 'v \<Rightarrow> 'v props \<Rightarrow> 'v props" where
  "insert_index n k v [] = [(k, v)]"
| "insert_index n k v ((k', v') # ps) =
     (case array_index k' of
        Some n' \<Rightarrow> if n' < n then (k', v') # insert_index n k v ps else (k, v) # (k', v') # ps
      | None \<Rightarrow> (k, v) # (k', v') # ps)"

fun update_prop :: "jsstring \<Rightarrow> 'v \<Rightarrow> 'v props \<Rightarrow> 'v props" where
  "update_prop k v [] = []"
| "update_prop k v ((k', v') # ps) =
     (if k' = k then (k', v) # ps else (k', v') # update_prop k v ps)"

definition set_prop :: "jsstring \<Rightarrow> 'v \<Rightarrow> 'v props \<Rightarrow> 'v props" where
  "set_prop k v ps =
     (if k \<in> fst ` set ps then update_prop k v ps
      else (case array_index k of
              Some n \<Rightarrow> insert_index n k v ps
            | None \<Rightarrow> ps @ [(k, v)]))"

definition Object_entries :: "'v props \<Rightarrow> (jsstring \<times> 'v) list" where
  "Object_entries ps = ps"

definition Object_fromEntries :: "(jsstring \<times> 'v) list \<Rightarrow> 'v props" where
  "Object_fromEntries es = foldl (\<lambda>ps (k, v). set_prop k v ps) [] es"

section \<open>\<open>JSON.parse\<close>\<close>

text \<open>
  \<open>JSON.parse\<close> belongs to the language, not to the repository; it is modelled from the JSON
  grammar of ECMA-262 (no reviver is passed). \<open>None\<close> stands for the \<open>SyntaxError\<close> that
  \<open>JSON.parse\<close> throws. The text is read in two passes, each a state machine that takes one
  item at a time, so both are structurally recursive: code units to tokens, then tokens
  to a value.
\<close>

subsection \<open>Tokens\<close>

text \<open>
  White space between tokens is TAB, LF, CR or SP. A string may hold any code unit from
  U+0020 on except the quote and the backslash, and the escapes
  \<open>\" \\ \/ \b \f \n \r \t \uXXXX\<close>. A number is
  \<open>-? (0 | [1-9][0-9]*) (. [0-9]+)? ([eE] [+-]? [0-9]+)?\<close>; \<open>num_state\<close> is the position in
  that expression.
\<close>

datatype token =
    TLBrace | TRBrace | TLBrack | TRBrack | TColon | TComma
  | TNull | TTrue | TFalse
  | TNum jsstring
  | TStr jsstring

datatype num_state = NMinus | NZero | NInt | NDot | NFrac | NExp | NExpSign | NExpDigits

text \<open>
  The state of the tokenizer: between tokens (\<open>LStart\<close>); inside \<open>null\<close>, \<open>true\<close> or \<open>false\<close>,
  with the code units still to come and the token they complete (\<open>LWord\<close>); inside a
  string, with its code units so far, last one first (\<open>LStr\<close>); after a backslash
  (\<open>LEsc\<close>); inside \<open>\uXXXX\<close>, with the number of hexadecimal digits read and their value
  (\<open>LHex\<close>); inside a number, with its code units so far, last one first (\<open>LNum\<close>).
\<close>

datatype lex_state =
    LStart
  | LWord jsstring token
  | LStr jsstring
  | LEsc jsstring
  | LHex jsstring nat jschar
  | LNum num_state jsstring

definition is_json_space :: "jschar \<Rightarrow> bool" where
  "is_json_space c \<longleftrightarrow> c = 0x09 \<or> c = 0x0A \<or> c = 0x0D \<or> c = 0x20"

definition hex_value :: "jschar \<Rightarrow> jschar option" where
  "hex_value c =
     (if 0x30 \<le> c \<and> c \<le> 0x39 then Some (c - 0x30)
      else if 0x41 \<le> c \<and> c \<le> 0x46 then Some (c - 0x41 + 10)
      else if 0x61 \<le> c \<and> c \<le> 0x66 then Some (c - 0x61 + 10)
      else None)"

definition escape_value :: "jschar \<Rightarrow> jschar option" where
  "escape_value c =
     (if c = 0x22 then Some 0x22
      else if c = 0x5C then Some 0x5C
      else if c = 0x2F then Some 0x2F
      else if c = 0x62 then Some 0x08
      else if c = 0x66 then Some 0x0C
      else if c = 0x6E then Some 0x0A
      else if c = 0x72 then Some 0x0D
      else if c = 0x74 then Some 0x09
      else None)"

definition is_exp_mark :: "jschar \<Rightarrow> bool" where
  "is_exp_mark c \<longleftrightarrow> c = 0x65 \<or> c = 0x45"

fun num_next :: "num_state \<Rightarrow> jschar \<Rightarrow> num_state option" where
  "num_next NMinus c =
     (if c = 0x30 then Some NZero else if is_digit c then Some NInt else None)"
| "num_next NZero c =
     (if c = 0x2E then Some NDot else if is_exp_mark c then Some NExp else None)"
| "num_next NInt c =
     (if is_digit c then Some NInt else if c = 0x2E then Some NDot
      else if is_exp_mark c then Some NExp else None)"
| "num_next NDot c = (if is_digit c then Some NFrac else None)"
| "num_next NFrac c =
     (if is_digit c then Some NFrac else if is_exp_mark c then Some NExp else None)"
| "num_next NExp c =
     (if c = 0x2B \<or> c = 0x2D then Some NExpSign
      else if is_digit c then Some NExpDigits else None)"
| "num_next NExpSign c = (if is_digit c then Some NExpDigits else None)"
| "num_next NExpDigits c = (if is_digit c then Some NExpDigits else None)"

fun num_final :: "num_state \<Rightarrow> bool" where
  "num_final NZero = True"
| "num_final NInt = True"
| "num_final NFrac = True"
| "num_final NExpDigits = True"
| "num_final _ = False"

definition lex_start :: "token list \<Rightarrow> jschar \<Rightarrow> (lex_state \<times> token list) option" where
  "lex_start toks c =
     (if is_json_space c then Some (LStart, toks)
      else if c = 0x7B then Some (LStart, TLBrace # toks)
      else if c = 0x7D then Some (LStart, TRBrace # toks)
      else if c = 0x5B then Some (LStart, TLBrack # toks)
      else if c = 0x5D then Some (LStart, TRBrack # toks)
      else if c = 0x3A then Some (LStart, TColon # toks)
      else if c = 0x2C then Some (LStart, TComma # toks)
      else if c = 0x22 then Some (LStr [], toks)
      else if c = 0x2D then Some (LNum NMinus [c], toks)
      else if c = 0x30 then Some (LNum NZero [c], toks)
      else if is_digit c then Some (LNum NInt [c], toks)
      else if c = 0x6E then Some (LWord (js ''ull'') TNull, toks)
      else if c = 0x74 then Some (LWord (js ''rue'') TTrue, toks)
      else if c = 0x66 then Some (LWord (js ''alse'') TFalse, toks)
      else None)"

fun lex_step :: "lex_state \<times> token list \<Rightarrow> jschar \<Rightarrow> (lex_state \<times> token list) option" where
  "lex_step (LStart, toks) c = lex_start toks c"
| "lex_step (LWord [] tok, toks) c = None"
| "lex_step (LWord (e # rest) tok, toks) c =
     (if c = e then (if rest = [] then Some (LStart, tok # toks) else Some (LWord rest tok, toks))
      else None)"
| "lex_step (LStr acc, toks) c =
     (if c = 0x22 then Some (LStart, TStr (rev acc) # toks)
      else if c = 0x5C then Some (LEsc acc, toks)
      else if c < 0x20 then None
      else Some (LStr (c # acc), toks))"
| "lex_step (LEsc acc, toks) c =
     (if c = 0x75 then Some (LHex acc 0 0, toks)
      else (case escape_value c of Some x \<Rightarrow> Some (LStr (x # acc), toks) | None \<Rightarrow> None))"
| "lex_step (LHex acc n v, toks) c =
     (case hex_value c of
        Some d \<Rightarrow> if n = 3 then Some (LStr ((v * 16 + d) # acc), toks)
                  else Some (LHex acc (n + 1) (v * 16 + d), toks)
      | None \<Rightarrow> None)"
| "lex_step (LNum st acc, toks) c =
     (case num_next st c of
        Some st' \<Rightarrow> Some (LNum st' (c # acc), toks)
      | None \<Rightarrow> if num_final st then lex_start (TNum (rev acc) # toks) c else None)"

fun lex_loop :: "lex_state \<times> token list \<Rightarrow> jsstring \<Rightarrow> (lex_state \<times> token list) option" where
  "lex_loop st [] = Some st"
| "lex_loop st (c # cs) = (case lex_step st c of None \<Rightarrow> None | Some st' \<Rightarrow> lex_loop st' cs)"

fun lex_finish :: "lex_state \<times> token list \<Rightarrow> token list option" where
  "lex_finish (LStart, toks) = Some (rev toks)"
| "lex_finish (LNum st acc, toks) =
     (if num_final st then Some (rev (TNum (rev acc) # toks)) else None)"
| "lex_finish _ = None"

definition tokenize :: "jsstring \<Rightarrow> token list option" where
  "tokenize s = (case lex_loop (LStart, []) s of None \<Rightarrow> None | Some st \<Rightarrow> lex_finish st)"

subsection \<open>Values\<close>

text \<open>
  The parser keeps a stack of the arrays and objects that are still open. A finished value
  is delivered to the innermost one; with none open it is the result. Members are stored
  with \<open>set_prop\<close>, so a repeated key keeps its first place and its last value.
\<close>

text \<open>
  What the parser may read next: a value; a value or \<open>]\<close> (just after \<open>[\<close>); a key or \<open>}\<close>
  (just after \<open>{\<close>); a key (after a comma in an object); a colon; a comma or the closing
  bracket. An open array holds its elements so far, last one first; an open object holds
  its properties so far, and between a key and its value the key as well.
\<close>

datatype expect = EValue | EValueOrEnd | EKeyOrEnd | EKey | EColon | ECommaOrEnd

datatype frame =
    InArray "json list"
  | InObject "json props"
  | InMember "json props" jsstring

datatype parse_state = PRun expect "frame list" | PDone json

fun deliver :: "json \<Rightarrow> frame list \<Rightarrow> parse_state option" where
  "deliver v [] = Some (PDone v)"
| "deliver v (InArray xs # stack) = Some (PRun ECommaOrEnd (InArray (v # xs) # stack))"
| "deliver v (InMember ps k # stack) = Some (PRun ECommaOrEnd (InObject (set_prop k v ps) # stack))"
| "deliver v (InObject ps # stack) = None"

fun scalar :: "token \<Rightarrow> json option" where
  "scalar TNull = Some JNull"
| "scalar TTrue = Some (JBool True)"
| "scalar TFalse = Some (JBool False)"
| "scalar (TNum n) = Some (JNumber n)"
| "scalar (TStr s) = Some (JString s)"
| "scalar _ = None"

definition parse_value :: "token \<Rightarrow> frame list \<Rightarrow> parse_state option" where
  "parse_value t stack =
     (if t = TLBrack then Some (PRun EValueOrEnd (InArray [] # stack))
      else if t = TLBrace then Some (PRun EKeyOrEnd (InObject [] # stack))
      else (case scalar t of Some v \<Rightarrow> deliver v stack | None \<Rightarrow> None))"

fun parse_key :: "token \<Rightarrow> frame list \<Rightarrow> parse_state option" where
  "parse_key (TStr k) (InObject ps # rest) = Some (PRun EColon (InMember ps k # rest))"
| "parse_key t stack = None"

fun parse_end :: "token \<Rightarrow> frame list \<Rightarrow> parse_state option" where
  "parse_end TRBrack (InArray xs # rest) = deliver (JArray (rev xs)) rest"
| "parse_end TRBrace (InObject ps # rest) = deliver (JObject ps) rest"
| "parse_end t stack = None"

fun parse_step :: "parse_state \<Rightarrow> token \<Rightarrow> parse_state option" where
  "parse_step (PDone v) t = None"
| "parse_step (PRun EValue stack) t = parse_value t stack"
| "parse_step (PRun EValueOrEnd stack) t =
     (if t = TRBrack then parse_end t stack else parse_value t stack)"
| "parse_step (PRun EKeyOrEnd stack) t =
     (if t = TRBrace then parse_end t stack else parse_key t stack)"
| "parse_step (PRun EKey stack) t = parse_key t stack"
| "parse_step (PRun EColon stack) t = (if t = TColon then Some (PRun EValue stack) else None)"
| "parse_step (PRun ECommaOrEnd stack) t =
     (if t = TComma then
        (case stack of
           InArray xs # rest \<Rightarrow> Some (PRun EValue stack)
         | InObject ps # rest \<Rightarrow> Some (PRun EKey stack)
         | _ \<Rightarrow> None)
      else parse_end t stack)"

fun parse_loop :: "parse_state \<Rightarrow> token list \<Rightarrow> parse_state option" where
  "parse_loop st [] = Some st"
| "parse_loop st (t # ts) = (case parse_step st t of None \<Rightarrow> None | Some st' \<Rightarrow> parse_loop st' ts)"

definition parse_tokens :: "token list \<Rightarrow> json option" where
  "parse_tokens ts =
     (case parse_loop (PRun EValue []) ts of Some (PDone v) \<Rightarrow> Some v | _ \<Rightarrow> None)"

definition JSON_parse :: "jsstring \<Rightarrow> json option" where
  "JSON_parse text = (case tokenize text of None \<Rightarrow> None | Some ts \<Rightarrow> parse_tokens ts)"

subsection \<open>A parsed value is smaller than its text\<close>

text \<open>
  \<open>jsize\<close> weighs a value: a string by its length plus one, an array or object by one plus
  its members, anything else by one. The value parsed from a text weighs at most the
  length of the text, hence less than the string that held the text. This is why the
  recursion of \<open>parseNestedJson\<close> on \<open>JSON.parse(obj)\<close> ends on every value, given room.
\<close>

fun jsize :: "json \<Rightarrow> nat" where
  "jsize (JString s) = length s + 1"
| "jsize (JArray xs) = 1 + sum_list (map jsize xs)"
| "jsize (JObject ps) = 1 + sum_list (map (\<lambda>p. jsize (snd p)) ps)"
| "jsize v = 1"

fun tsize :: "token \<Rightarrow> nat" where
  "tsize (TStr s) = length s + 2"
| "tsize t = 1"

fun pending :: "lex_state \<Rightarrow> nat" where
  "pending LStart = 0"
| "pending (LWord rest tok) = tsize tok"
| "pending (LStr acc) = length acc + 1"
| "pending (LEsc acc) = length acc + 1"
| "pending (LHex acc n v) = length acc + 1"
| "pending (LNum st acc) = 1"

fun fweight :: "frame \<Rightarrow> nat" where
  "fweight (InArray xs) = 1 + sum_list (map jsize xs)"
| "fweight (InObject ps) = 1 + sum_list (map (\<lambda>p. jsize (snd p)) ps)"
| "fweight (InMember ps k) = 1 + sum_list (map (\<lambda>p. jsize (snd p)) ps)"

fun pweight :: "parse_state \<Rightarrow> nat" where
  "pweight (PRun e stack) = sum_list (map fweight stack)"
| "pweight (PDone v) = jsize v"

lemma lex_start_size:
  "lex_start toks c = Some (st', toks') \<Longrightarrow>
     sum_list (map tsize toks') + pending st' \<le> sum_list (map tsize toks) + 1"
  by (auto simp: lex_start_def split: if_splits)

lemma lex_step_size:
  "lex_step (st, toks) c = Some (st', toks') \<Longrightarrow>
     sum_list (map tsize toks') + pending st' \<le> sum_list (map tsize toks) + pending st + 1"
proof (cases st)
  case LStart
  assume "lex_step (st, toks) c = Some (st', toks')"
  with LStart lex_start_size [of toks c st' toks'] show ?thesis by simp
next
  case (LWord rest tok)
  assume "lex_step (st, toks) c = Some (st', toks')"
  with LWord show ?thesis by (cases rest) (auto split: if_splits)
next
  case (LStr acc)
  assume "lex_step (st, toks) c = Some (st', toks')"
  with LStr show ?thesis by (auto split: if_splits)
next
  case (LEsc acc)
  assume "lex_step (st, toks) c = Some (st', toks')"
  with LEsc show ?thesis by (auto split: if_splits option.splits)
next
  case (LHex acc n v)
  assume "lex_step (st, toks) c = Some (st', toks')"
  with LHex show ?thesis by (auto split: if_splits option.splits)
next
  case (LNum ns acc)
  assume a: "lex_step (st, toks) c = Some (st', toks')"
  show ?thesis
  proof (cases "num_next ns c")
    case (Some ns')
    with a LNum show ?thesis by auto
  next
    case None
    with a LNum have "lex_start (TNum (rev acc) # toks) c = Some (st', toks')"
      by (auto split: if_splits)
    from lex_start_size [OF this] LNum show ?thesis by simp
  qed
qed

lemma lex_loop_size:
  "lex_loop (st, toks) cs = Some (st', toks') \<Longrightarrow>
     sum_list (map tsize toks') + pending st' \<le> sum_list (map tsize toks) + pending st + length cs"
proof (induction cs arbitrary: st toks)
  case Nil
  then show ?case by simp
next
  case (Cons c cs)
  from Cons.prems obtain st1 toks1 where s: "lex_step (st, toks) c = Some (st1, toks1)"
    and l: "lex_loop (st1, toks1) cs = Some (st', toks')"
    by (auto split: option.splits)
  from lex_step_size [OF s] Cons.IH [OF l] show ?case by simp
qed

lemma lex_finish_size:
  "lex_finish (st, toks) = Some ts \<Longrightarrow> sum_list (map tsize ts) \<le> sum_list (map tsize toks) + pending st"
  by (cases st) (auto split: if_splits simp: rev_map [symmetric])

lemma tokenize_size: "tokenize s = Some ts \<Longrightarrow> sum_list (map tsize ts) \<le> length s"
proof -
  assume "tokenize s = Some ts"
  then obtain st toks where l: "lex_loop (LStart, []) s = Some (st, toks)"
    and f: "lex_finish (st, toks) = Some ts"
    by (auto simp: tokenize_def split: option.splits)
  from lex_loop_size [OF l] lex_finish_size [OF f] show ?thesis by simp
qed

lemma insert_index_weight:
  "sum_list (map (\<lambda>p. f (snd p)) (insert_index n k v ps)) = sum_list (map (\<lambda>p. f (snd p)) ps) + (f v :: nat)"
  by (induction ps) (auto split: option.splits)

lemma update_weight:
  "sum_list (map (\<lambda>p. f (snd p)) (update_prop k v ps))
     \<le> sum_list (map (\<lambda>p. f (snd p)) ps) + (f v :: nat)"
  by (induction ps) auto

lemma set_prop_weight:
  "sum_list (map (\<lambda>p. f (snd p)) (set_prop k v ps)) \<le> sum_list (map (\<lambda>p. f (snd p)) ps) + (f v :: nat)"
  unfolding set_prop_def using update_weight [of f k v ps]
  by (auto simp: insert_index_weight split: option.splits)

lemma deliver_size:
  "deliver v stack = Some st \<Longrightarrow> pweight st \<le> sum_list (map fweight stack) + jsize v"
proof (cases stack)
  case Nil
  assume "deliver v stack = Some st"
  with Nil show ?thesis by auto
next
  case (Cons f rest)
  assume a: "deliver v stack = Some st"
  show ?thesis
  proof (cases f)
    case (InArray xs)
    with a Cons show ?thesis by auto
  next
    case (InObject ps)
    with a Cons show ?thesis by auto
  next
    case (InMember ps k)
    with a Cons set_prop_weight [of jsize k v ps] show ?thesis by auto
  qed
qed

lemma scalar_size: "scalar t = Some v \<Longrightarrow> jsize v \<le> tsize t"
  by (cases t) auto

lemma parse_value_size:
  "parse_value t stack = Some st \<Longrightarrow> pweight st \<le> sum_list (map fweight stack) + tsize t"
proof -
  assume a: "parse_value t stack = Some st"
  show ?thesis
  proof (cases "t = TLBrack \<or> t = TLBrace")
    case True
    with a show ?thesis by (auto simp: parse_value_def split: if_splits)
  next
    case False
    with a obtain v where s: "scalar t = Some v" and d: "deliver v stack = Some st"
      by (auto simp: parse_value_def split: option.splits)
    from scalar_size [OF s] deliver_size [OF d] show ?thesis by simp
  qed
qed

lemma parse_key_size:
  "parse_key t stack = Some st \<Longrightarrow> pweight st \<le> sum_list (map fweight stack) + tsize t"
  by (induction t stack rule: parse_key.induct) auto

lemma parse_end_size:
  "parse_end t stack = Some st \<Longrightarrow> pweight st \<le> sum_list (map fweight stack) + tsize t"
proof (induction t stack rule: parse_end.induct)
  case (1 xs rest)
  then have "deliver (JArray (rev xs)) rest = Some st" by simp
  from deliver_size [OF this] show ?case by (simp add: rev_map [symmetric])
next
  case (2 ps rest)
  then have "deliver (JObject ps) rest = Some st" by simp
  from deliver_size [OF this] show ?case by simp
qed auto

lemma parse_step_size:
  "parse_step st t = Some st' \<Longrightarrow> pweight st' \<le> pweight st + tsize t"
proof (induction st t rule: parse_step.induct)
  case (1 v t)
  then show ?case by simp
next
  case (2 stack t)
  then show ?case using parse_value_size [of t stack st'] by simp
next
  case (3 stack t)
  then show ?case using parse_value_size [of t stack st'] parse_end_size [of t stack st']
    by (auto split: if_splits)
next
  case (4 stack t)
  then show ?case using parse_key_size [of t stack st'] parse_end_size [of t stack st']
    by (auto split: if_splits)
next
  case (5 stack t)
  then show ?case using parse_key_size [of t stack st'] by simp
next
  case (6 stack t)
  then show ?case by (auto split: if_splits)
next
  case (7 stack t)
  then show ?case using parse_end_size [of t stack st']
    by (auto split: if_splits list.splits frame.splits)
qed

lemma parse_loop_size:
  "parse_loop st ts = Some st' \<Longrightarrow> pweight st' \<le> pweight st + sum_list (map tsize ts)"
proof (induction ts arbitrary: st)
  case Nil
  then show ?case by simp
next
  case (Cons t ts)
  from Cons.prems obtain st1 where s: "parse_step st t = Some st1"
    and l: "parse_loop st1 ts = Some st'"
    by (auto split: option.splits)
  from parse_step_size [OF s] Cons.IH [OF l] show ?case by simp
qed

lemma parse_tokens_size: "parse_tokens ts = Some v \<Longrightarrow> jsize v \<le> sum_list (map tsize ts)"
proof -
  assume "parse_tokens ts = Some v"
  then have "parse_loop (PRun EValue []) ts = Some (PDone v)"
    by (auto simp: parse_tokens_def split: option.splits parse_state.splits)
  from parse_loop_size [OF this] show ?thesis by simp
qed

lemma JSON_parse_size: "JSON_parse text = Some v \<Longrightarrow> jsize v \<le> length text"
proof -
  assume "JSON_parse text = Some v"
  then obtain ts where t: "tokenize text = Some ts" and p: "parse_tokens ts = Some v"
    by (auto simp: JSON_parse_def split: option.splits)
  from tokenize_size [OF t] parse_tokens_size [OF p] show ?thesis by simp
qed

section \<open>\<open>parseNestedJson\<close>\<close>

text \<open>
  A call can end in two ways: it returns a value or it throws. Two errors occur here:
  the \<open>SyntaxError\<close> of \<open>JSON.parse\<close> (in the model the result \<open>None\<close> of \<open>JSON_parse\<close>; the
  constructor keeps the text that was refused, for the message), and the \<open>RangeError\<close>
  that the engine throws when a call finds no room on the call stack.
\<close>

datatype js_error = SyntaxError jsstring | RangeError

text \<open>
  \<open>Array.prototype.map\<close> with a callback that may throw: the elements are visited from
  left to right, and the first throw ends the call.
\<close>

fun map_result :: "('a \<Rightarrow> 'e + 'b) \<Rightarrow> 'a list \<Rightarrow> 'e + 'b list" where
  "map_result f [] = Inr []"
| "map_result f (x # xs) =
     (case f x of
        Inl e \<Rightarrow> Inl e
      | Inr y \<Rightarrow> (case map_result f xs of Inl e \<Rightarrow> Inl e | Inr ys \<Rightarrow> Inr (y # ys)))"

text \<open>
  The function is recursive and has no counter of its own, so its depth is bounded by the
  call stack alone. The first argument, \<open>stack\<close>, is the number of nested activations of
  \<open>parseNestedJson\<close> for which the engine has room when the call is made; every engine has
  such a number, and nothing below depends on which. A call with no room left throws
  \<open>RangeError\<close>; every recursive call has one activation less. The builtins that an
  activation calls (\<open>JSON.parse\<close>, \<open>map\<close>, \<open>Object.entries\<close>, \<open>Object.fromEntries\<close>) are
  taken to run in the room of that activation.

  The \<open>try\<close> block holds both \<open>JSON.parse(obj)\<close> and the recursive call on its result, and
  the \<open>catch\<close> has no binding and no test: whatever is thrown inside, a \<open>SyntaxError\<close> of
  \<open>JSON.parse\<close> or a \<open>RangeError\<close> from deeper down, the string itself is returned. The
  recursion on the elements of an array and on the values of an object stands in no
  \<open>try\<close>, so there an error goes on to the caller. The tests
  \<open>typeof obj === 'string'\<close>, \<open>Array.isArray(obj)\<close> and
  \<open>obj !== null && typeof obj === 'object'\<close> are the constructors, in the order of the source.
  The two copies of the function in the sources are the same.
\<close>

fun parseNestedJson :: "nat \<Rightarrow> json \<Rightarrow> js_error + json" where
  "parseNestedJson 0 obj = Inl RangeError"
| "parseNestedJson (Suc stack) (JString s) =
     (case JSON_parse s of
        None \<Rightarrow> Inr (JString s)
      | Some v \<Rightarrow>
          (case parseNestedJson stack v of
             Inl e \<Rightarrow> Inr (JString s)
           | Inr r \<Rightarrow> Inr r))"
| "parseNestedJson (Suc stack) (JArray xs) =
     (case map_result (\<lambda>x. parseNestedJson stack x) xs of
        Inl e \<Rightarrow> Inl e
      | Inr ys \<Rightarrow> Inr (JArray ys))"
| "parseNestedJson (Suc stack) (JObject ps) =
     (case map_result
             (\<lambda>(k, v). case parseNestedJson stack v of Inl e \<Rightarrow> Inl e | Inr r \<Rightarrow> Inr (k, r))
             (Object_entries ps) of
        Inl e \<Rightarrow> Inl e
      | Inr es \<Rightarrow> Inr (JObject (Object_fromEntries es)))"
| "parseNestedJson (Suc stack) JNull = Inr JNull"
| "parseNestedJson (Suc stack) (JBool b) = Inr (JBool b)"
| "parseNestedJson (Suc stack) (JNumber n) = Inr (JNumber n)"

text \<open>
  \<open>call_depth v\<close> is the number of nested activations that resolving \<open>v\<close> all the way takes:
  one for the call itself, on top of the deepest of the calls it makes. It is finite for
  every value, because a parsed value is smaller than its text.
\<close>

function call_depth :: "json \<Rightarrow> nat" where
  "call_depth (JString s) =
     (case JSON_parse s of
        Some v \<Rightarrow> 1 + call_depth v
      | None \<Rightarrow> 1)"
| "call_depth (JArray xs) = 1 + foldr max (map call_depth xs) 0"
| "call_depth (JObject ps) = 1 + foldr max (map (\<lambda>(k, v). call_depth v) (Object_entries ps)) 0"
| "call_depth JNull = 1"
| "call_depth (JBool b) = 1"
| "call_depth (JNumber n) = 1"
  by pat_completeness auto
termination
proof (relation "measure jsize")
  show "wf (measure jsize)" by simp
next
  fix s v assume "JSON_parse s = Some v"
  from JSON_parse_size [OF this] show "(v, JString s) \<in> measure jsize" by simp
next
  fix xs :: "json list" and x assume "x \<in> set xs"
  then have "jsize x \<le> sum_list (map jsize xs)" by (simp add: member_le_sum_list)
  then show "(x, JArray xs) \<in> measure jsize" by simp
next
  fix ps :: "json props" and kv :: "jsstring \<times> json" and k v
  assume "kv \<in> set (Object_entries ps)" "(k, v) = kv"
  then have "(k, v) \<in> set ps" by (simp add: Object_entries_def)
  then have "jsize (snd (k, v)) \<in> set (map (\<lambda>p. jsize (snd p)) ps)" by force
  then have "jsize v \<le> sum_list (map (\<lambda>p. jsize (snd p)) ps)"
    using member_le_sum_list by fastforce
  then show "(v, JObject ps) \<in> measure jsize" by simp
qed

section \<open>The parse step of \<open>App\<close>\<close>

text \<open>
  The component state that the parse effect reads and writes: the raw text \<open>input\<close>, the
  resolved value \<open>parsed\<close> and the message \<open>error\<close>. \<open>JSON.parse(input)\<close> and
  \<open>setParsed(parseNestedJson(obj))\<close> stand in one \<open>try\<close>: an error of either goes to the
  \<open>catch\<close>, which stores \<open>e.message\<close> and nothing else. The wording of a message is the
  engine's own, so it is a parameter: \<open>message e\<close> is the message of the error \<open>e\<close>. The
  older copy of the component has the same body as the callback \<open>handleParse\<close>.
\<close>

record app_state =
  input :: jsstring
  parsed :: json
  error :: jsstring

definition handleParse :: "(js_error \<Rightarrow> jsstring) \<Rightarrow> nat \<Rightarrow> app_state \<Rightarrow> app_state" where
  "handleParse message stack st =
     (case JSON_parse (input st) of
        None \<Rightarrow> st\<lparr>error := message (SyntaxError (input st))\<rparr>
      | Some obj \<Rightarrow>
          (case parseNestedJson stack obj of
             Inl e \<Rightarrow> st\<lparr>error := message e\<rparr>
           | Inr r \<Rightarrow> st\<lparr>parsed := r, error := []\<rparr>))"

text \<open>
  In \<open>App.jsx\<close> the step is an effect that runs on every change of \<open>input\<close>: the editor's
  \<open>onChange\<close> calls \<open>setInput\<close>, then the effect parses. \<open>edits\<close> is a series of such changes.
\<close>

definition onChange ::
  "(js_error \<Rightarrow> jsstring) \<Rightarrow> nat \<Rightarrow> jsstring \<Rightarrow> app_state \<Rightarrow> app_state" where
  "onChange message stack text st = handleParse message stack (st\<lparr>input := text\<rparr>)"

fun edits ::
  "(js_error \<Rightarrow> jsstring) \<Rightarrow> nat \<Rightarrow> jsstring list \<Rightarrow> app_state \<Rightarrow> app_state" where
  "edits message stack [] st = st"
| "edits message stack (text # texts) st =
     edits message stack texts (onChange message stack text st)"

section \<open>Notions used in the claims\<close>

text \<open>
  \<open>own_keys_ok ps\<close> says that \<open>ps\<close> is a possible list of own properties: no key twice,
  index keys first and ascending. Every object of a JavaScript program satisfies it.
  \<open>js_value_ok\<close> asks it of every object inside a value. \<open>no_json_strings v\<close> says that no
  string inside \<open>v\<close> parses as JSON; \<open>string_leaves v\<close> are the strings inside \<open>v\<close>.
\<close>

definition key_order :: "jsstring \<Rightarrow> jsstring \<Rightarrow> bool" where
  "key_order k k' =
     (case array_index k' of
        None \<Rightarrow> True
      | Some b \<Rightarrow> (case array_index k of None \<Rightarrow> False | Some a \<Rightarrow> a < b))"

definition own_keys_ok :: "'v props \<Rightarrow> bool" where
  "own_keys_ok ps \<longleftrightarrow> distinct (map fst ps) \<and> sorted_wrt key_order (map fst ps)"

fun js_value_ok :: "json \<Rightarrow> bool" where
  "js_value_ok (JArray xs) = list_all js_value_ok xs"
| "js_value_ok (JObject ps) = (own_keys_ok ps \<and> list_all (\<lambda>p. js_value_ok (snd p)) ps)"
| "js_value_ok v = True"

fun no_json_strings :: "json \<Rightarrow> bool" where
  "no_json_strings (JString s) = (JSON_parse s = None)"
| "no_json_strings (JArray xs) = list_all no_json_strings xs"
| "no_json_strings (JObject ps) = list_all (\<lambda>p. no_json_strings (snd p)) ps"
| "no_json_strings v = True"

fun string_leaves :: "json \<Rightarrow> jsstring set" where
  "string_leaves (JString s) = {s}"
| "string_leaves (JArray xs) = (\<Union>x \<in> set xs. string_leaves x)"
| "string_leaves (JObject ps) = (\<Union>p \<in> set ps. string_leaves (snd p))"
| "string_leaves v = {}"

text \<open>
  The same for the parser's stack: every value held in an open array or object is
  well-formed, and so is the property list of every open object.
\<close>

fun frame_ok :: "frame \<Rightarrow> bool" where
  "frame_ok (InArray xs) = list_all js_value_ok xs"
| "frame_ok (InObject ps) = (own_keys_ok ps \<and> list_all (\<lambda>p. js_value_ok (snd p)) ps)"
| "frame_ok (InMember ps k) = (own_keys_ok ps \<and> list_all (\<lambda>p. js_value_ok (snd p)) ps)"

fun state_ok :: "parse_state \<Rightarrow> bool" where
  "state_ok (PRun e stack) = list_all frame_ok stack"
| "state_ok (PDone v) = js_value_ok v"

text \<open>
  The invariant of the outer loop: every entry has a resolved line number of at most
  \<open>parsedIdx\<close> and an original line number of at most \<open>origIdx\<close>, and the entries grow
  strictly.
\<close>

definition increasing_below :: "nat \<Rightarrow> nat \<Rightarrow> line_map \<Rightarrow> bool" where
  "increasing_below p oi m \<longleftrightarrow>
     (\<forall>a x. m a = Some x \<longrightarrow> a \<le> p \<and> x \<le> oi) \<and>
     (\<forall>a b x y. a < b \<and> m a = Some x \<and> m b = Some y \<longrightarrow> x < y)"

subsection \<open>Example texts\<close>

text \<open>
  The original and the resolved text of the line-map example: the original has
  \<open>"b": {"c":2}\<close> on one line, the resolved text has it on three.
\<close>

definition ex_orig :: jsstring where
  "ex_orig = js ''{\<newline>  \"a\": \"1\",\<newline>  \"b\": {\"c\":2}\<newline>}''"

definition ex_res :: jsstring where
  "ex_res = js ''{\<newline>  \"a\": 1,\<newline>  \"b\": {\<newline>    \"c\": 2\<newline>  }\<newline>}''"

text \<open>
  An array with one string element, pretty-printed; the element is the text
  \<open>x "k": y\<close>, so its line reads \<open>"x \"k\": y"\<close> (backslash is U+005C).
\<close>

definition ex_array_line :: jsstring where
  "ex_array_line = js ''  \"x '' @ [0x5C, DQUOTE] @ js ''k'' @ [0x5C, DQUOTE] @ js '': y\"''"

definition ex_array_text :: jsstring where
  "ex_array_text = js ''['' @ [NEWLINE] @ ex_array_line @ [NEWLINE] @ js '']''"

text \<open>
  Twenty-one lines without a key, then a line with the key \<open>z\<close> at index 21.
\<close>

definition ex_far_lines :: "jsstring list" where
  "ex_far_lines = replicate 21 (js ''['') @ [js ''\"z\": 1'']"

text \<open>
  The nested-unwrap example: the text of an object, and the object.
\<close>

definition ex_john_text :: jsstring where
  "ex_john_text = js ''{\"name\":\"John\",\"age\":30}''"

definition ex_john :: json where
  "ex_john = JObject [(js ''name'', JString (js ''John'')), (js ''age'', JNumber (js ''30''))]"

definition ex_msg :: json where
  "ex_msg = JObject [(js ''msg'', JString (js ''hello world''))]"

definition ex_data :: json where
  "ex_data = JObject [(js ''data'', JString ex_john_text)]"

definition ex_keys :: "json props" where
  "ex_keys = [(js ''[1]'', JString (js ''[1]'')), (js ''b'', JString (js ''true''))]"

definition ex_message :: "js_error \<Rightarrow> jsstring" where
  "ex_message e =
     (case e of
        SyntaxError text \<Rightarrow> js ''Unexpected end of JSON input''
      | RangeError \<Rightarrow> js ''Maximum call stack size exceeded'')"

definition ex_state :: app_state where
  "ex_state = \<lparr>input = js ''{\"a\":'', parsed = ex_john, error = []\<rparr>"

text \<open>
  \<open>quote_plain s\<close> is a JSON text of the string \<open>s\<close>, for \<open>s\<close> without control characters:
  the quote and the backslash are escaped.
\<close>

definition BACKSLASH :: jschar where "BACKSLASH = 0x5C"

definition quote_plain :: "jsstring \<Rightarrow> jsstring" where
  "quote_plain s =
     DQUOTE # concat (map (\<lambda>c. if c = DQUOTE \<or> c = BACKSLASH then [BACKSLASH, c] else [c]) s)
       @ [DQUOTE]"

text \<open>
  Deep nesting in few code units: \<open>nest_array n\<close> is the empty array inside \<open>n\<close> arrays, and
  \<open>nest_text n\<close> is its JSON text, \<open>n + 1\<close> opening brackets and as many closing ones.
  \<open>nest_from n v\<close> puts \<open>v\<close> inside \<open>n\<close> arrays.
\<close>

fun nest_array :: "nat \<Rightarrow> json" where
  "nest_array 0 = JArray []"
| "nest_array (Suc n) = JArray [nest_array n]"

fun nest_from :: "nat \<Rightarrow> json \<Rightarrow> json" where
  "nest_from 0 v = v"
| "nest_from (Suc n) v = nest_from n (JArray [v])"

definition nest_text :: "nat \<Rightarrow> jsstring" where
  "nest_text n = replicate (Suc n) 0x5B @ replicate (Suc n) 0x5D"

section \<open>Properties of the line mapping\<close>

lemma find_match_None_key: "find_match origLines None origIdx i = None"
  by (induction origLines "None :: jsstring option" origIdx i rule: find_match.induct)
     (simp add: find_match.simps)

lemma find_match_Some:
  "find_match ls pk oi i = Some j \<Longrightarrow>
     i \<le> j \<and> j < length ls \<and> j < oi + 20 \<and> pk \<noteq> None \<and> match_key (trim (ls ! j)) = pk \<and>
     (\<forall>t. i \<le> t \<and> t < j \<longrightarrow> match_key (trim (ls ! t)) \<noteq> pk)"
proof (induction ls pk oi i rule: find_match.induct)
  case (1 ls pk oi i)
  show ?case
  proof (cases "i < length ls \<and> i < oi + 20")
    case False
    with "1.prems" show ?thesis by (simp add: find_match.simps)
  next
    case inw: True
    show ?thesis
    proof (cases "pk \<noteq> None \<and> match_key (trim (ls ! i)) = pk")
      case True
      with inw "1.prems" have "j = i" by (auto simp add: find_match.simps [of ls pk oi i])
      with True inw show ?thesis by auto
    next
      case False
      with inw "1.prems" have rec: "find_match ls pk oi (i + 1) = Some j"
        by (auto simp add: find_match.simps [of ls pk oi i] Let_def split: if_splits)
      from False inw have "\<not> (pk \<noteq> None \<and> match_key (trim (ls ! i)) \<noteq> None \<and> the pk = the (match_key (trim (ls ! i))))"
        by auto
      from "1.IH" [OF inw refl refl this rec] have ih:
        "i + 1 \<le> j \<and> j < length ls \<and> j < oi + 20 \<and> pk \<noteq> None \<and> match_key (trim (ls ! j)) = pk \<and>
         (\<forall>t. i + 1 \<le> t \<and> t < j \<longrightarrow> match_key (trim (ls ! t)) \<noteq> pk)" .
      have "\<forall>t. i \<le> t \<and> t < j \<longrightarrow> match_key (trim (ls ! t)) \<noteq> pk"
      proof (intro allI impI)
        fix t assume t: "i \<le> t \<and> t < j"
        show "match_key (trim (ls ! t)) \<noteq> pk"
        proof (cases "t = i")
          case True with False ih show ?thesis by auto
        next
          case False with t ih show ?thesis by auto
        qed
      qed
      with ih show ?thesis by auto
    qed
  qed
qed

lemma find_match_None:
  "find_match ls pk oi i = None \<Longrightarrow> i \<le> t \<Longrightarrow> t < length ls \<Longrightarrow> t < oi + 20 \<Longrightarrow>
     pk = None \<or> match_key (trim (ls ! t)) \<noteq> pk"
proof (induction ls pk oi i rule: find_match.induct)
  case (1 ls pk oi i)
  from "1.prems" have inw: "i < length ls \<and> i < oi + 20" by auto
  show ?case
  proof (cases "pk \<noteq> None \<and> match_key (trim (ls ! i)) = pk")
    case True
    with inw "1.prems"(1) show ?thesis by (auto simp add: find_match.simps [of ls pk oi i])
  next
    case False
    with inw "1.prems"(1) have rec: "find_match ls pk oi (i + 1) = None"
      by (auto simp add: find_match.simps [of ls pk oi i] Let_def split: if_splits)
    from False inw have c: "\<not> (pk \<noteq> None \<and> match_key (trim (ls ! i)) \<noteq> None \<and> the pk = the (match_key (trim (ls ! i))))"
      by auto
    show ?thesis
    proof (cases "t = i")
      case True with False show ?thesis by auto
    next
      case ne: False
      with "1.prems" have "i + 1 \<le> t" by simp
      from "1.IH" [OF inw refl refl c rec this "1.prems"(3) "1.prems"(4)] show ?thesis .
    qed
  qed
qed

lemma find_match_first:
  assumes "pk \<noteq> None" "i \<le> j" "j < length ls" "j < oi + 20"
    "match_key (trim (ls ! j)) = pk"
    "\<forall>t. i \<le> t \<and> t < j \<longrightarrow> match_key (trim (ls ! t)) \<noteq> pk"
  shows "find_match ls pk oi i = Some j"
proof (cases "find_match ls pk oi i")
  case None
  from find_match_None [OF None assms(2) assms(3) assms(4)] assms show ?thesis by simp
next
  case (Some j')
  note fm = find_match_Some [OF Some]
  have "j' = j"
  proof (rule ccontr)
    assume ne: "j' \<noteq> j"
    show False
    proof (cases "j' < j")
      case True with fm assms(6) show False by auto
    next
      case False with ne have "j < j'" by simp
      with fm assms(2) assms(5) show False by auto
    qed
  qed
  with Some show ?thesis by simp
qed

lemma key_at_Some_iff:
  "key_at s = Some k \<longleftrightarrow>
     (\<exists>post. s = DQUOTE # k @ DQUOTE # COLON # post \<and> k \<noteq> [] \<and> DQUOTE \<notin> set k)"
proof
  assume a: "key_at s = Some k"
  then obtain c cs where s: "s = c # cs" by (cases s) auto
  from a s have c: "c = DQUOTE" by (auto split: if_splits)
  from a s c have k: "k = takeWhile (\<lambda>x. x \<noteq> DQUOTE) cs" and ne: "k \<noteq> []"
    by (auto simp: Let_def split: if_splits list.splits)
  from a s c obtain q rest where d: "dropWhile (\<lambda>x. x \<noteq> DQUOTE) cs = q # COLON # rest"
    by (auto simp: Let_def split: if_splits list.splits)
  have "q = DQUOTE" using hd_dropWhile [of "\<lambda>x. x \<noteq> DQUOTE" cs] d by auto
  with d k have "cs = k @ DQUOTE # COLON # rest"
    using takeWhile_dropWhile_id [of "\<lambda>x. x \<noteq> DQUOTE" cs] by simp
  moreover have "DQUOTE \<notin> set k" using k by (auto dest: set_takeWhileD)
  ultimately show "\<exists>post. s = DQUOTE # k @ DQUOTE # COLON # post \<and> k \<noteq> [] \<and> DQUOTE \<notin> set k"
    using s c ne by auto
next
  assume "\<exists>post. s = DQUOTE # k @ DQUOTE # COLON # post \<and> k \<noteq> [] \<and> DQUOTE \<notin> set k"
  then obtain post where s: "s = DQUOTE # k @ DQUOTE # COLON # post" and ne: "k \<noteq> []"
    and nq: "DQUOTE \<notin> set k" by auto
  from nq have t: "takeWhile (\<lambda>x. x \<noteq> DQUOTE) (k @ DQUOTE # COLON # post) = k"
    by (subst takeWhile_append2) auto
  from nq have d: "dropWhile (\<lambda>x. x \<noteq> DQUOTE) (k @ DQUOTE # COLON # post) = DQUOTE # COLON # post"
    by (subst dropWhile_append2) auto
  show "key_at s = Some k" using s ne t d by (simp add: Let_def)
qed

lemma match_key_Some_iff:
  "match_key s = Some k \<longleftrightarrow>
     (\<exists>n. key_at (drop n s) = Some k \<and> (\<forall>m<n. key_at (drop m s) = None))"
proof (induction s)
  case Nil
  show ?case by simp
next
  case (Cons c cs)
  show ?case
  proof (cases "key_at (c # cs)")
    case (Some k')
    have "(\<exists>n. key_at (drop n (c # cs)) = Some k \<and> (\<forall>m<n. key_at (drop m (c # cs)) = None))
            \<longleftrightarrow> k' = k"
    proof
      assume "\<exists>n. key_at (drop n (c # cs)) = Some k \<and> (\<forall>m<n. key_at (drop m (c # cs)) = None)"
      then obtain n where n: "key_at (drop n (c # cs)) = Some k"
        and first: "\<forall>m<n. key_at (drop m (c # cs)) = None" by auto
      have "n = 0"
      proof (rule ccontr)
        assume "n \<noteq> 0"
        then have "0 < n" by simp
        with first have "key_at (drop 0 (c # cs)) = None" by blast
        with Some show False by simp
      qed
      with n Some show "k' = k" by simp
    next
      assume "k' = k"
      with Some have "key_at (drop 0 (c # cs)) = Some k \<and> (\<forall>m<0. key_at (drop m (c # cs)) = None)"
        by simp
      then show "\<exists>n. key_at (drop n (c # cs)) = Some k \<and> (\<forall>m<n. key_at (drop m (c # cs)) = None)"
        by blast
    qed
    with Some show ?thesis by simp
  next
    case None
    have "(\<exists>n. key_at (drop n (c # cs)) = Some k \<and> (\<forall>m<n. key_at (drop m (c # cs)) = None))
            \<longleftrightarrow> (\<exists>n. key_at (drop n cs) = Some k \<and> (\<forall>m<n. key_at (drop m cs) = None))"
    proof
      assume "\<exists>n. key_at (drop n (c # cs)) = Some k \<and> (\<forall>m<n. key_at (drop m (c # cs)) = None)"
      then obtain n where n: "key_at (drop n (c # cs)) = Some k"
        and first: "\<forall>m<n. key_at (drop m (c # cs)) = None" by auto
      from n None obtain n' where n': "n = Suc n'" by (cases n) auto
      have "\<forall>m<n'. key_at (drop m cs) = None"
      proof (intro allI impI)
        fix m assume "m < n'"
        with n' have "Suc m < n" by simp
        with first have "key_at (drop (Suc m) (c # cs)) = None" by blast
        then show "key_at (drop m cs) = None" by simp
      qed
      with n n' show "\<exists>n. key_at (drop n cs) = Some k \<and> (\<forall>m<n. key_at (drop m cs) = None)"
        by auto
    next
      assume "\<exists>n. key_at (drop n cs) = Some k \<and> (\<forall>m<n. key_at (drop m cs) = None)"
      then obtain n where n: "key_at (drop n cs) = Some k"
        and first: "\<forall>m<n. key_at (drop m cs) = None" by auto
      have "\<forall>m<Suc n. key_at (drop m (c # cs)) = None"
      proof (intro allI impI)
        fix m assume m: "m < Suc n"
        show "key_at (drop m (c # cs)) = None"
        proof (cases m)
          case 0 with None show ?thesis by simp
        next
          case (Suc m') with m first show ?thesis by simp
        qed
      qed
      with n have "key_at (drop (Suc n) (c # cs)) = Some k \<and> (\<forall>m<Suc n. key_at (drop m (c # cs)) = None)"
        by simp
      then show "\<exists>n. key_at (drop n (c # cs)) = Some k \<and> (\<forall>m<n. key_at (drop m (c # cs)) = None)"
        by blast
    qed
    with None Cons.IH show ?thesis by simp
  qed
qed

lemma line_step_no_key:
  "match_key (trim l) = None \<Longrightarrow> line_step ls p l (oi, m) = (oi, m)"
  by (simp add: line_step_def find_match_None_key)

lemma line_step_found:
  assumes "match_key (trim l) = Some k" "oi \<le> i" "i < length ls" "i < oi + 20"
    "match_key (trim (ls ! i)) = Some k"
    "\<forall>j. oi \<le> j \<and> j < i \<longrightarrow> match_key (trim (ls ! j)) \<noteq> Some k"
  shows "line_step ls p l (oi, m) = (i + 1, m(p + 1 \<mapsto> i + 1))"
proof -
  have "find_match ls (Some k) oi oi = Some i"
    using assms by (intro find_match_first) auto
  with assms(1) show ?thesis by (simp add: line_step_def)
qed

lemma line_step_no_match:
  assumes "\<forall>i. oi \<le> i \<and> i < length ls \<and> i < oi + 20 \<longrightarrow>
             match_key (trim (ls ! i)) \<noteq> match_key (trim l)"
  shows "line_step ls p l (oi, m) = (oi, m)"
proof (cases "find_match ls (match_key (trim l)) oi oi")
  case None
  then show ?thesis by (simp add: line_step_def)
next
  case (Some j)
  from find_match_Some [OF Some] assms show ?thesis by auto
qed

lemma line_step_cases:
  "line_step ls p l (oi, m) = (oi, m) \<or>
   (\<exists>i. oi \<le> i \<and> i < length ls \<and> i < oi + 20 \<and>
        line_step ls p l (oi, m) = (i + 1, m(p + 1 \<mapsto> i + 1)))"
proof (cases "find_match ls (match_key (trim l)) oi oi")
  case None
  then show ?thesis by (simp add: line_step_def)
next
  case (Some j)
  from find_match_Some [OF Some] Some show ?thesis by (auto simp add: line_step_def)
qed

lemma line_step_increasing:
  assumes "increasing_below p oi m" "line_step ls p l (oi, m) = (oi', m')"
  shows "increasing_below (p + 1) oi' m'"
proof -
  from line_step_cases [of ls p l oi m] show ?thesis
  proof
    assume "line_step ls p l (oi, m) = (oi, m)"
    with assms have "oi' = oi" "m' = m" by auto
    with assms(1) show ?thesis unfolding increasing_below_def by (meson le_SucI trans_le_add1)
  next
    assume "\<exists>i. oi \<le> i \<and> i < length ls \<and> i < oi + 20 \<and>
        line_step ls p l (oi, m) = (i + 1, m(p + 1 \<mapsto> i + 1))"
    then obtain i where i: "oi \<le> i" and st: "line_step ls p l (oi, m) = (i + 1, m(p + 1 \<mapsto> i + 1))"
      by auto
    with assms(2) have eq: "oi' = i + 1" "m' = m(p + 1 \<mapsto> i + 1)" by auto
    from assms(1) have old: "\<And>a x. m a = Some x \<Longrightarrow> a \<le> p \<and> x \<le> oi"
      and inc: "\<And>a b x y. a < b \<Longrightarrow> m a = Some x \<Longrightarrow> m b = Some y \<Longrightarrow> x < y"
      by (auto simp: increasing_below_def)
    show ?thesis unfolding increasing_below_def eq
    proof (intro conjI allI impI)
      fix a x assume "(m(p + 1 \<mapsto> i + 1)) a = Some x"
      then show "a \<le> p + 1" using old [of a x] by (auto split: if_splits)
    next
      fix a x assume "(m(p + 1 \<mapsto> i + 1)) a = Some x"
      then show "x \<le> i + 1" using old [of a x] i by (auto split: if_splits)
    next
      fix a b x y
      assume h: "a < b \<and> (m(p + 1 \<mapsto> i + 1)) a = Some x \<and> (m(p + 1 \<mapsto> i + 1)) b = Some y"
      show "x < y"
      proof (cases "b = p + 1")
        case True
        with h have "a \<noteq> p + 1" "y = i + 1" by auto
        with h have "m a = Some x" by auto
        from old [OF this] i \<open>y = i + 1\<close> show ?thesis by simp
      next
        case False
        with h have mb: "m b = Some y" by auto
        from old [OF this] h have "a \<noteq> p + 1" by auto
        with h have "m a = Some x" by auto
        from inc [OF _ this mb] h show ?thesis by simp
      qed
    qed
  qed
qed

lemma map_loop_increasing:
  "increasing_below p oi m \<Longrightarrow> map_loop ls lines p (oi, m) = (oi', m') \<Longrightarrow>
     increasing_below (p + length lines) oi' m'"
proof (induction lines arbitrary: p oi m)
  case Nil
  then show ?case by simp
next
  case (Cons l lines)
  obtain oi1 m1 where s: "line_step ls p l (oi, m) = (oi1, m1)" by (cases "line_step ls p l (oi, m)")
  from line_step_increasing [OF Cons.prems(1) s] have "increasing_below (p + 1) oi1 m1" .
  from Cons.IH [OF this] Cons.prems(2) s show ?case by simp
qed

lemma buildLineMapping_increasing:
  "\<exists>p oi. increasing_below p oi (buildLineMapping originalStr parsedStr)"
proof -
  obtain oi' m' where r: "map_loop (split_nl originalStr) (split_nl parsedStr) 0 (0, Map.empty) = (oi', m')"
    by (cases "map_loop (split_nl originalStr) (split_nl parsedStr) 0 (0, Map.empty)")
  have "increasing_below 0 0 Map.empty" by (simp add: increasing_below_def)
  from map_loop_increasing [OF this r] r show ?thesis
    by (auto simp: buildLineMapping_def Let_def)
qed

section \<open>The claims on the line mapping\<close>

text \<open>
  Claim C6, as stated, fails: it says that a key is extracted only if the trimmed line has
  a \<^emph>\<open>leading\<close> \<open>"<key>":\<close> pattern. The line \<open>"x \"k\": y"\<close> of a pretty-printed array has no
  such pattern at its start, yet \<open>buildLineMapping\<close> maps it (line 2 to line 2): the
  regular expression is not anchored and finds \<open>"k\":\<close> inside the string. The text is one
  that the application can hold on both sides: it parses, and resolving changes nothing.
\<close>

theorem line_key_not_leading_counterexample:
  "key_at (trim ex_array_line) = None \<and>
   split_nl ex_array_text ! 1 = ex_array_line \<and>
   buildLineMapping ex_array_text ex_array_text 2 = Some 2 \<and>
   map_option (parseNestedJson 2) (JSON_parse ex_array_text) =
     Some (Inr (JArray [JString (js ''x \"k\": y'')]))"
  by code_simp

text \<open>
  Claim C6, amended: on each resolved line, in order, a key is extracted if and only if the
  trimmed line contains \<^emph>\<open>anywhere\<close> a quote, one or more code units other than a quote, a
  quote and a colon; the key is that of the leftmost such occurrence. With no key the line
  gives no entry and the cursor stays. With the key \<open>k'\<close>, if \<open>i\<close> is the first index from
  the cursor on (and less than 20 lines ahead of it) whose original line has the same
  key, the step records \<open>parsedIdx + 1 \<mapsto> i + 1\<close> and moves the cursor to \<open>i + 1\<close>.
\<close>

theorem line_step_rule:
  "(match_key s = Some k \<longleftrightarrow>
      (\<exists>n. key_at (drop n s) = Some k \<and> (\<forall>m<n. key_at (drop m s) = None))) \<and>
   (key_at s = Some k \<longleftrightarrow>
      (\<exists>post. s = DQUOTE # k @ DQUOTE # COLON # post \<and> k \<noteq> [] \<and> DQUOTE \<notin> set k)) \<and>
   (match_key (trim l) = None \<longrightarrow>
      line_step origLines parsedIdx l (origIdx, mapping) = (origIdx, mapping)) \<and>
   (match_key (trim l) = Some k' \<and> origIdx \<le> i \<and> i < length origLines \<and> i < origIdx + 20 \<and>
    match_key (trim (origLines ! i)) = Some k' \<and>
    (\<forall>j. origIdx \<le> j \<and> j < i \<longrightarrow> match_key (trim (origLines ! j)) \<noteq> Some k') \<longrightarrow>
      line_step origLines parsedIdx l (origIdx, mapping) =
        (i + 1, mapping(parsedIdx + 1 \<mapsto> i + 1)))"
proof (intro conjI impI)
  show "match_key s = Some k \<longleftrightarrow>
      (\<exists>n. key_at (drop n s) = Some k \<and> (\<forall>m<n. key_at (drop m s) = None))"
    by (rule match_key_Some_iff)
  show "key_at s = Some k \<longleftrightarrow>
      (\<exists>post. s = DQUOTE # k @ DQUOTE # COLON # post \<and> k \<noteq> [] \<and> DQUOTE \<notin> set k)"
    by (rule key_at_Some_iff)
  show "line_step origLines parsedIdx l (origIdx, mapping) = (origIdx, mapping)"
    if "match_key (trim l) = None"
    using that by (rule line_step_no_key)
  show "line_step origLines parsedIdx l (origIdx, mapping) =
        (i + 1, mapping(parsedIdx + 1 \<mapsto> i + 1))"
    if "match_key (trim l) = Some k' \<and> origIdx \<le> i \<and> i < length origLines \<and> i < origIdx + 20 \<and>
        match_key (trim (origLines ! i)) = Some k' \<and>
       (\<forall>j. origIdx \<le> j \<and> j < i \<longrightarrow> match_key (trim (origLines ! j)) \<noteq> Some k')"
    using that by (intro line_step_found) auto
qed

text \<open>
  The rule at the third line of the example: \<open>"b": {\<close> is found at original index 2.
\<close>

theorem line_step_rule_witness:
  "line_step (split_nl ex_orig) 2 (js ''  \"b\": {'') (0, Map.empty) = (3, [3 \<mapsto> 3]) \<and>
   line_step (split_nl ex_orig) 0 (js ''{'') (0, Map.empty) = (0, Map.empty) \<and>
   match_key (js ''  \"b\": {'') = Some (js ''b'')"
proof -
  let ?ls = "split_nl ex_orig"
  let ?l = "js ''  \"b\": {''"
  have k: "match_key (trim ?l) = Some (js ''b'')" by code_simp
  have i: "(0::nat) \<le> 2 \<and> 2 < length ?ls \<and> (2::nat) < 0 + 20" by code_simp
  have oi: "match_key (trim (?ls ! 2)) = Some (js ''b'')" by code_simp
  have first: "\<forall>j. 0 \<le> j \<and> j < 2 \<longrightarrow> match_key (trim (?ls ! j)) \<noteq> Some (js ''b'')"
  proof (intro allI impI)
    fix j :: nat assume "0 \<le> j \<and> j < 2"
    then have "j = 0 \<or> j = 1" by auto
    moreover have "match_key (trim (?ls ! 0)) \<noteq> Some (js ''b'')" by code_simp
    moreover have "match_key (trim (?ls ! 1)) \<noteq> Some (js ''b'')" by code_simp
    ultimately show "match_key (trim (?ls ! j)) \<noteq> Some (js ''b'')" by auto
  qed
  have nokey: "match_key (trim (js ''{'')) = None" by code_simp
  have at: "key_at (drop 2 ?l) = Some (js ''b'') \<and> (\<forall>m<2. key_at (drop m ?l) = None)"
  proof (intro conjI allI impI)
    show "key_at (drop 2 ?l) = Some (js ''b'')" by code_simp
    fix m :: nat assume "m < 2"
    then have "m = 0 \<or> m = 1" by auto
    moreover have "key_at (drop 0 ?l) = None" by code_simp
    moreover have "key_at (drop 1 ?l) = None" by code_simp
    ultimately show "key_at (drop m ?l) = None" by auto
  qed
  note r = line_step_rule [where s = ?l and k = "js ''b''" and l = ?l and origLines = ?ls
      and parsedIdx = 2 and origIdx = 0 and mapping = Map.empty and k' = "js ''b''" and i = 2]
  note r0 = line_step_rule [where l = "js ''{''" and origLines = ?ls
      and parsedIdx = 0 and origIdx = 0 and mapping = Map.empty]
  from r k i oi first
  have "line_step ?ls 2 ?l (0, Map.empty) = (2 + 1, [2 + 1 \<mapsto> 2 + 1])" by blast
  moreover from r0 nokey have "line_step ?ls 0 (js ''{'') (0, Map.empty) = (0, Map.empty)" by blast
  moreover from r at have "match_key ?l = Some (js ''b'')" by blast
  ultimately show ?thesis by simp
qed

text \<open>
  Claim C7: the search looks at original lines \<open>origIdx \<le> i < origIdx + 20\<close> only. When no
  line in that window has the key of the resolved line (in particular when the key occurs
  only beyond the window), the step adds no entry and leaves the cursor where it was; and
  every entry a step does add points into the window.
\<close>

theorem search_window_bounded:
  "((\<forall>i. origIdx \<le> i \<and> i < length origLines \<and> i < origIdx + 20 \<longrightarrow>
        match_key (trim (origLines ! i)) \<noteq> match_key (trim l)) \<longrightarrow>
      line_step origLines parsedIdx l (origIdx, mapping) = (origIdx, mapping)) \<and>
   (line_step origLines parsedIdx l (origIdx, mapping) = (origIdx, mapping) \<or>
    (\<exists>i. origIdx \<le> i \<and> i < length origLines \<and> i < origIdx + 20 \<and>
         line_step origLines parsedIdx l (origIdx, mapping) =
           (i + 1, mapping(parsedIdx + 1 \<mapsto> i + 1))))"
  using line_step_no_match [of origIdx origLines l parsedIdx mapping]
    line_step_cases [of origLines parsedIdx l origIdx mapping]
  by blast

text \<open>
  The key \<open>z\<close> at original index 21 is out of reach from cursor 0.
\<close>

theorem search_window_bounded_witness:
  "match_key (trim (ex_far_lines ! 21)) = Some (js ''z'') \<and>
   line_step ex_far_lines 0 (js ''\"z\": 1'') (0, Map.empty) = (0, Map.empty)"
proof -
  let ?l = "js ''\"z\": 1''"
  have far: "match_key (trim (ex_far_lines ! 21)) = Some (js ''z'')"
    by (simp add: ex_far_lines_def nth_append) code_simp
  have k: "match_key (trim ?l) = Some (js ''z'')" by code_simp
  have other: "match_key (trim (js ''['')) = None" by code_simp
  have win: "\<forall>i. 0 \<le> i \<and> i < length ex_far_lines \<and> i < 0 + 20 \<longrightarrow>
        match_key (trim (ex_far_lines ! i)) \<noteq> match_key (trim ?l)"
    using k other by (simp add: ex_far_lines_def nth_append)
  from search_window_bounded [of 0 ex_far_lines ?l 0 Map.empty] win
  have "line_step ex_far_lines 0 ?l (0, Map.empty) = (0, Map.empty)" by blast
  with far show ?thesis by simp
qed

text \<open>
  Claim C8: the entries of the line map are monotonically non-decreasing: for mapped
  resolved lines \<open>a < b\<close>, the original line of \<open>a\<close> is at most that of \<open>b\<close>.
\<close>

theorem line_map_monotone:
  "a < b \<Longrightarrow> buildLineMapping originalStr parsedStr a = Some x \<Longrightarrow>
     buildLineMapping originalStr parsedStr b = Some y \<Longrightarrow> x \<le> y"
  using buildLineMapping_increasing [of originalStr parsedStr]
  unfolding increasing_below_def by (meson less_imp_le_nat)

text \<open>
  Monotonicity on the example, resolved lines 2 and 3.
\<close>

theorem line_map_monotone_witness:
  "buildLineMapping ex_orig ex_res 2 = Some 2 \<and> buildLineMapping ex_orig ex_res 3 = Some 3 \<and>
   (2::nat) \<le> 3"
proof -
  have a: "buildLineMapping ex_orig ex_res 2 = Some 2" by code_simp
  have b: "buildLineMapping ex_orig ex_res 3 = Some 3" by code_simp
  have "(2::nat) < 3" by simp
  from line_map_monotone [OF this a b] a b show ?thesis by simp
qed

text \<open>
  Claim C10: the mapped original line numbers increase strictly with the resolved line
  number, and no two distinct resolved lines are mapped to the same original line.
\<close>

theorem line_map_strict:
  "(a < b \<and> buildLineMapping originalStr parsedStr a = Some x \<and>
      buildLineMapping originalStr parsedStr b = Some y \<longrightarrow> x < y) \<and>
   (a \<noteq> b \<and> buildLineMapping originalStr parsedStr a = Some x \<and>
      buildLineMapping originalStr parsedStr b = Some y \<longrightarrow> x \<noteq> y)"
proof -
  from buildLineMapping_increasing [of originalStr parsedStr]
  have inc: "\<And>a b x y. a < b \<Longrightarrow> buildLineMapping originalStr parsedStr a = Some x \<Longrightarrow>
      buildLineMapping originalStr parsedStr b = Some y \<Longrightarrow> x < y"
    unfolding increasing_below_def by blast
  have "x \<noteq> y" if "a \<noteq> b" "buildLineMapping originalStr parsedStr a = Some x"
      "buildLineMapping originalStr parsedStr b = Some y"
  proof (cases "a < b")
    case True
    from inc [OF True that(2) that(3)] show ?thesis by simp
  next
    case False
    with that(1) have "b < a" by simp
    from inc [OF this that(3) that(2)] show ?thesis by simp
  qed
  with inc show ?thesis by blast
qed

text \<open>
  Strict growth on the example, resolved lines 2 and 3.
\<close>

theorem line_map_strict_witness:
  "buildLineMapping ex_orig ex_res 2 = Some 2 \<and> buildLineMapping ex_orig ex_res 3 = Some 3 \<and>
   (2::nat) < 3 \<and> (2::nat) \<noteq> 3"
proof -
  have a: "buildLineMapping ex_orig ex_res 2 = Some 2" by code_simp
  have b: "buildLineMapping ex_orig ex_res 3 = Some 3" by code_simp
  from line_map_strict [of 2 3 ex_orig ex_res 2 3] a b show ?thesis by simp
qed

section \<open>\<open>JSON.parse\<close> on some texts\<close>

lemma JSON_parse_accepts:
  "JSON_parse (js '' [1, -2.5e+3, true, null] '') =
     Some (JArray [JNumber (js ''1''), JNumber (js ''-2.5e+3''), JBool True, JNull])"
  "JSON_parse (js ''{\"b\":1,\"10\":2,\"9\":3,\"b\":4}'') =
     Some (JObject [(js ''9'', JNumber (js ''3'')), (js ''10'', JNumber (js ''2'')),
                    (js ''b'', JNumber (js ''4''))])"
  "JSON_parse (js ''\"a'' @ [0x5C] @ js ''u0041'' @ [0x5C] @ js ''n\"'') =
     Some (JString (js ''aA'' @ [0x0A]))"
  by code_simp+

lemma JSON_parse_rejects:
  "JSON_parse [] = None"
  "JSON_parse (js ''hello world'') = None"
  "JSON_parse (js ''[1,]'') = None"
  "JSON_parse (js ''{\"a\":1}x'') = None"
  "JSON_parse (js ''01'') = None"
  "JSON_parse (js ''1.'') = None"
  "JSON_parse (js ''\"a'' @ [0x09] @ js ''b\"'') = None"
  by code_simp+

section \<open>Properties of objects\<close>

subsection \<open>Canonical numeric strings\<close>

lemma digit_range: "is_digit c \<Longrightarrow> 0 \<le> uint c - 48 \<and> uint c - 48 \<le> 9"
  by (simp add: is_digit_def word_le_def)

lemma digit_inj: "uint c - 48 = uint c' - 48 \<Longrightarrow> c = (c' :: jschar)"
  by (simp add: word_uint_eq_iff)

lemma digits_value_snoc: "digits_value (ds @ [c]) = 10 * digits_value ds + (uint c - 48)"
  by (simp add: digits_value_def)

lemma digits_value_Nil: "digits_value [] = 0"
  by (simp add: digits_value_def)

lemma digits_value_nonneg: "list_all is_digit ds \<Longrightarrow> 0 \<le> digits_value ds"
proof (induction ds rule: rev_induct)
  case Nil
  show ?case by (simp add: digits_value_Nil)
next
  case (snoc c ds)
  then have "0 \<le> digits_value ds" "is_digit c" by simp_all
  with digit_range [of c] show ?case by (simp add: digits_value_snoc)
qed

lemma digits_value_pos:
  "ds \<noteq> [] \<Longrightarrow> list_all is_digit ds \<Longrightarrow> hd ds \<noteq> 0x30 \<Longrightarrow> 0 < digits_value ds"
proof (induction ds rule: rev_induct)
  case Nil
  then show ?case by simp
next
  case (snoc c xs)
  then have dxs: "list_all is_digit xs" and dc: "is_digit c" by simp_all
  show ?case
  proof (cases "xs = []")
    case True
    with snoc.prems have "c \<noteq> 0x30" by simp
    then have "uint c \<noteq> 48" by (simp add: word_uint_eq_iff)
    with dc have "0 < uint c - 48" using digit_range [of c] by simp
    with True show ?thesis by (simp add: digits_value_def)
  next
    case False
    with snoc.prems have "hd xs \<noteq> 0x30" by simp
    from snoc.IH [OF False dxs this] digit_range [OF dc] show ?thesis
      by (simp add: digits_value_snoc)
  qed
qed

lemma digits_value_inj:
  "list_all is_digit ds \<Longrightarrow> ds = [] \<or> hd ds \<noteq> 0x30 \<Longrightarrow>
   list_all is_digit ds' \<Longrightarrow> ds' = [] \<or> hd ds' \<noteq> 0x30 \<Longrightarrow>
   digits_value ds = digits_value ds' \<Longrightarrow> ds = ds'"
proof (induction ds arbitrary: ds' rule: rev_induct)
  case Nil
  show ?case
  proof (cases "ds' = []")
    case True
    then show ?thesis by simp
  next
    case False
    with Nil.prems have "0 < digits_value ds'" by (intro digits_value_pos) auto
    with Nil.prems show ?thesis by (simp add: digits_value_Nil)
  qed
next
  case (snoc c xs)
  from snoc.prems have dxs: "list_all is_digit xs" and dc: "is_digit c" by simp_all
  from snoc.prems have "0 < digits_value (xs @ [c])" by (intro digits_value_pos) auto
  with snoc.prems have "ds' \<noteq> []" by (auto simp: digits_value_Nil)
  then obtain xs' c' where ds': "ds' = xs' @ [c']" by (cases ds' rule: rev_cases) auto
  with snoc.prems have dxs': "list_all is_digit xs'" and dc': "is_digit c'" by simp_all
  from snoc.prems ds' have eq: "10 * digits_value xs + (uint c - 48) = 10 * digits_value xs' + (uint c' - 48)"
    by (simp add: digits_value_snoc)
  with digit_range [OF dc] digit_range [OF dc']
  have v: "digits_value xs = digits_value xs'" and d: "uint c - 48 = uint c' - 48" by presburger+
  from snoc.prems have lx: "xs = [] \<or> hd xs \<noteq> 0x30" by (cases xs) auto
  from snoc.prems ds' have lx': "xs' = [] \<or> hd xs' \<noteq> 0x30" by (cases xs') auto
  from snoc.IH [OF dxs lx dxs' lx' v] digit_inj [OF d] ds' show ?case by simp
qed

lemma array_index_inj:
  assumes "array_index k = Some n" "array_index k' = Some n"
  shows "k = k'"
proof -
  from assms(1) have k: "k \<noteq> []" "list_all is_digit k" "length k = 1 \<or> hd k \<noteq> 0x30"
    "digits_value k = n" by (auto simp: array_index_def split: if_splits)
  from assms(2) have k': "k' \<noteq> []" "list_all is_digit k'" "length k' = 1 \<or> hd k' \<noteq> 0x30"
    "digits_value k' = n" by (auto simp: array_index_def split: if_splits)
  have zero: "x = [0x30]" if "x \<noteq> []" "length x = 1 \<or> hd x \<noteq> 0x30" "hd x = 0x30" for x :: jsstring
    using that by (cases x) auto
  show ?thesis
  proof (cases "hd k = 0x30")
    case True
    with k zero have k0: "k = [0x30]" by blast
    with k have "n = 0" by (simp add: digits_value_def)
    have "hd k' = 0x30"
    proof (rule ccontr)
      assume "hd k' \<noteq> 0x30"
      from digits_value_pos [OF k'(1) k'(2) this] k'(4) \<open>n = 0\<close> show False by simp
    qed
    with k' zero have "k' = [0x30]" by blast
    with k0 show ?thesis by simp
  next
    case False
    have "hd k' \<noteq> 0x30"
    proof
      assume "hd k' = 0x30"
      with k' zero have "k' = [0x30]" by blast
      with k' have "n = 0" by (simp add: digits_value_def)
      with digits_value_pos [OF k(1) k(2) False] k(4) show False by simp
    qed
    with False k k' show ?thesis by (intro digits_value_inj) auto
  qed
qed

subsection \<open>Setting a property keeps the enumeration order well-formed\<close>

lemma keys_update_prop: "map fst (update_prop k v ps) = map fst ps"
  by (induction ps) auto

lemma keys_insert_index: "fst ` set (insert_index n k v ps) = insert k (fst ` set ps)"
proof (induction ps)
  case Nil
  show ?case by simp
next
  case (Cons p ps)
  obtain k' v' where p: "p = (k', v')" by (cases p)
  show ?case
  proof (cases "array_index k'")
    case None
    with p show ?thesis by auto
  next
    case (Some n')
    with p Cons.IH show ?thesis by (cases "n' < n") auto
  qed
qed

lemma own_keys_ok_Cons:
  "own_keys_ok ((k, v) # ps) \<longleftrightarrow>
     k \<notin> fst ` set ps \<and> (\<forall>k' \<in> fst ` set ps. key_order k k') \<and> own_keys_ok ps"
  by (auto simp: own_keys_ok_def)

lemma insert_index_ok:
  assumes "array_index k = Some n" "k \<notin> fst ` set ps" "own_keys_ok ps"
  shows "own_keys_ok (insert_index n k v ps)"
  using assms(2) assms(3)
proof (induction ps)
  case Nil
  show ?case by (simp add: own_keys_ok_def)
next
  case (Cons p ps)
  obtain k' v' where p: "p = (k', v')" by (cases p)
  from Cons.prems p have ne: "k' \<noteq> k" and notin: "k \<notin> fst ` set ps"
    and k'notin: "k' \<notin> fst ` set ps" and k'ord: "\<forall>x \<in> fst ` set ps. key_order k' x"
    and ok: "own_keys_ok ps"
    by (auto simp: own_keys_ok_Cons)
  show ?case
  proof (cases "array_index k'")
    case None
    have "key_order k x" if "x \<in> fst ` set ps" for x
    proof -
      from k'ord that have "key_order k' x" by blast
      with None have "array_index x = None" by (auto simp: key_order_def split: option.splits)
      then show ?thesis by (simp add: key_order_def)
    qed
    moreover have "key_order k k'" using None by (simp add: key_order_def)
    ultimately show ?thesis using None p ne notin Cons.prems
      by (auto simp: own_keys_ok_Cons)
  next
    case (Some n')
    show ?thesis
    proof (cases "n' < n")
      case True
      have "key_order k' k" using Some assms(1) True by (simp add: key_order_def)
      with k'ord have "\<forall>x \<in> fst ` set (insert_index n k v ps). key_order k' x"
        by (simp add: keys_insert_index)
      moreover have "k' \<notin> fst ` set (insert_index n k v ps)"
        using k'notin ne by (simp add: keys_insert_index)
      moreover note Cons.IH [OF notin ok]
      ultimately show ?thesis using Some True p by (simp add: own_keys_ok_Cons)
    next
      case False
      have "n' \<noteq> n" using array_index_inj [of k' n k] Some assms(1) ne by auto
      with False have lt: "n < n'" by simp
      have "key_order k x" if "x \<in> fst ` set ps" for x
      proof (cases "array_index x")
        case None
        then show ?thesis by (simp add: key_order_def)
      next
        case (Some b)
        from k'ord that have "key_order k' x" by blast
        with Some \<open>array_index k' = Some n'\<close> have "n' < b" by (simp add: key_order_def)
        with lt Some assms(1) show ?thesis by (simp add: key_order_def)
      qed
      moreover have "key_order k k'" using Some assms(1) lt by (simp add: key_order_def)
      ultimately show ?thesis using Some False p ne notin Cons.prems
        by (auto simp: own_keys_ok_Cons)
    qed
  qed
qed

lemma set_prop_ok: "own_keys_ok ps \<Longrightarrow> own_keys_ok (set_prop k v ps)"
proof -
  assume ok: "own_keys_ok ps"
  show ?thesis
  proof (cases "k \<in> fst ` set ps")
    case True
    with ok show ?thesis by (simp add: set_prop_def own_keys_ok_def keys_update_prop)
  next
    case notin: False
    show ?thesis
    proof (cases "array_index k")
      case None
      then have "\<forall>x \<in> fst ` set ps. key_order x k" by (simp add: key_order_def)
      with notin ok None show ?thesis
        by (auto simp: set_prop_def own_keys_ok_def sorted_wrt_append)
    next
      case (Some n)
      from insert_index_ok [OF Some notin ok] notin Some show ?thesis by (simp add: set_prop_def)
    qed
  qed
qed

lemma fold_set_prop_ok:
  "own_keys_ok acc \<Longrightarrow> own_keys_ok (foldl (\<lambda>ps (k, v). set_prop k v ps) acc es)"
  by (induction es arbitrary: acc) (auto simp: set_prop_ok)

lemma Object_fromEntries_ok: "own_keys_ok (Object_fromEntries es)"
  unfolding Object_fromEntries_def by (rule fold_set_prop_ok) (simp add: own_keys_ok_def)

subsection \<open>Rebuilding an object from its own entries\<close>

lemma insert_index_last:
  "\<forall>x \<in> fst ` set ps. \<exists>a. array_index x = Some a \<and> a < n \<Longrightarrow>
     insert_index n k v ps = ps @ [(k, v)]"
  by (induction ps) auto

lemma set_prop_new_last:
  assumes "k \<notin> fst ` set ps" "\<forall>x \<in> fst ` set ps. key_order x k"
  shows "set_prop k v ps = ps @ [(k, v)]"
proof (cases "array_index k")
  case None
  with assms(1) show ?thesis by (simp add: set_prop_def)
next
  case (Some n)
  have "\<forall>x \<in> fst ` set ps. \<exists>a. array_index x = Some a \<and> a < n"
    using assms(2) Some by (auto simp: key_order_def split: option.splits)
  from insert_index_last [OF this] assms(1) Some show ?thesis by (simp add: set_prop_def)
qed

lemma own_keys_ok_snoc:
  "own_keys_ok (ps @ [(k, v)]) \<longleftrightarrow>
     own_keys_ok ps \<and> k \<notin> fst ` set ps \<and> (\<forall>x \<in> fst ` set ps. key_order x k)"
  by (auto simp: own_keys_ok_def sorted_wrt_append)

lemma fold_set_prop_snoc:
  "foldl (\<lambda>ps (k, v). set_prop k v ps) acc (es @ [(k, v)]) =
     set_prop k v (foldl (\<lambda>ps (k, v). set_prop k v ps) acc es)"
  by simp

lemma Object_fromEntries_own: "own_keys_ok ps \<Longrightarrow> Object_fromEntries ps = ps"
proof (induction ps rule: rev_induct)
  case Nil
  show ?case by (simp add: Object_fromEntries_def)
next
  case (snoc p ps)
  obtain k v where p: "p = (k, v)" by (cases p)
  from snoc.prems p have ok: "own_keys_ok ps" and notin: "k \<notin> fst ` set ps"
    and ord: "\<forall>x \<in> fst ` set ps. key_order x k" by (simp_all add: own_keys_ok_snoc)
  from snoc.IH [OF ok] have "Object_fromEntries (ps @ [p]) = set_prop k v ps"
    by (simp add: Object_fromEntries_def p)
  with set_prop_new_last [OF notin ord] p show ?case by simp
qed

lemma own_keys_ok_map_values:
  "own_keys_ok (map (\<lambda>(k, v). (k, f v)) ps) = own_keys_ok ps"
proof -
  have "map fst (map (\<lambda>(k, v). (k, f v)) ps) = map fst ps" by (induction ps) auto
  then show ?thesis unfolding own_keys_ok_def by (simp only:)
qed

lemma values_update_prop: "snd ` set (update_prop k v ps) \<subseteq> insert v (snd ` set ps)"
proof (induction ps)
  case Nil
  show ?case by simp
next
  case (Cons p ps)
  obtain k' v' where p: "p = (k', v')" by (cases p)
  with Cons.IH show ?case by (cases "k' = k") auto
qed

lemma values_insert_index: "snd ` set (insert_index n k v ps) \<subseteq> insert v (snd ` set ps)"
proof (induction ps)
  case Nil
  show ?case by simp
next
  case (Cons p ps)
  obtain k' v' where p: "p = (k', v')" by (cases p)
  show ?case
  proof (cases "array_index k'")
    case None
    with p show ?thesis by auto
  next
    case (Some n')
    with p Cons.IH show ?thesis by (cases "n' < n") auto
  qed
qed

lemma values_set_prop: "snd ` set (set_prop k v ps) \<subseteq> insert v (snd ` set ps)"
  using values_update_prop [of k v ps] values_insert_index [of _ k v ps]
  by (auto simp: set_prop_def split: option.splits)

lemma values_fold_set_prop:
  "snd ` set (foldl (\<lambda>ps (k, v). set_prop k v ps) acc es) \<subseteq> snd ` set acc \<union> snd ` set es"
proof (induction es arbitrary: acc)
  case Nil
  show ?case by simp
next
  case (Cons e es)
  obtain k v where e: "e = (k, v)" by (cases e)
  from Cons.IH [of "set_prop k v acc"] values_set_prop [of k v acc] e show ?case by auto
qed

lemma values_Object_fromEntries: "snd ` set (Object_fromEntries es) \<subseteq> snd ` set es"
  using values_fold_set_prop [of "[]" es] by (simp add: Object_fromEntries_def)

section \<open>Properties of the resolver\<close>

subsection \<open>Parsed values are well-formed\<close>

lemma set_prop_values_ok:
  assumes "list_all (\<lambda>p. js_value_ok (snd p)) ps" "js_value_ok v"
  shows "list_all (\<lambda>p. js_value_ok (snd p)) (set_prop k v ps)"
proof -
  have "js_value_ok w" if "w \<in> snd ` set (set_prop k v ps)" for w
  proof -
    from that values_set_prop [of k v ps] have "w = v \<or> w \<in> snd ` set ps" by blast
    with assms show ?thesis by (auto simp: list_all_iff)
  qed
  then show ?thesis by (auto simp: list_all_iff)
qed

lemma deliver_ok:
  "js_value_ok v \<Longrightarrow> list_all frame_ok stack \<Longrightarrow> deliver v stack = Some st \<Longrightarrow> state_ok st"
proof (induction v stack rule: deliver.induct)
  case (3 v ps k stack)
  then show ?case by (auto simp: set_prop_ok set_prop_values_ok)
qed auto

lemma scalar_ok: "scalar t = Some v \<Longrightarrow> js_value_ok v"
  by (cases t) auto

lemma parse_value_ok:
  "list_all frame_ok stack \<Longrightarrow> parse_value t stack = Some st \<Longrightarrow> state_ok st"
  by (auto simp: parse_value_def own_keys_ok_def split: if_splits option.splits
      dest: scalar_ok intro: deliver_ok)

lemma parse_key_ok:
  "list_all frame_ok stack \<Longrightarrow> parse_key t stack = Some st \<Longrightarrow> state_ok st"
  by (induction t stack rule: parse_key.induct) auto

lemma parse_end_ok:
  "list_all frame_ok stack \<Longrightarrow> parse_end t stack = Some st \<Longrightarrow> state_ok st"
proof (induction t stack rule: parse_end.induct)
  case (1 xs rest)
  then have "js_value_ok (JArray (rev xs))" "list_all frame_ok rest"
    "deliver (JArray (rev xs)) rest = Some st" by (simp_all add: list_all_iff)
  then show ?case by (rule deliver_ok)
next
  case (2 ps rest)
  then have "js_value_ok (JObject ps)" "list_all frame_ok rest"
    "deliver (JObject ps) rest = Some st" by simp_all
  then show ?case by (rule deliver_ok)
qed auto

lemma parse_step_ok: "state_ok st \<Longrightarrow> parse_step st t = Some st' \<Longrightarrow> state_ok st'"
proof (induction st t rule: parse_step.induct)
  case (1 v t)
  then show ?case by simp
next
  case (2 stack t)
  then show ?case using parse_value_ok [of stack t st'] by simp
next
  case (3 stack t)
  then show ?case using parse_value_ok [of stack t st'] parse_end_ok [of stack t st']
    by (auto split: if_splits)
next
  case (4 stack t)
  then show ?case using parse_key_ok [of stack t st'] parse_end_ok [of stack t st']
    by (auto split: if_splits)
next
  case (5 stack t)
  then show ?case using parse_key_ok [of stack t st'] by simp
next
  case (6 stack t)
  then show ?case by (auto split: if_splits)
next
  case (7 stack t)
  then show ?case using parse_end_ok [of stack t st']
    by (auto split: if_splits list.splits frame.splits)
qed

lemma parse_loop_ok: "state_ok st \<Longrightarrow> parse_loop st ts = Some st' \<Longrightarrow> state_ok st'"
proof (induction ts arbitrary: st)
  case Nil
  then show ?case by simp
next
  case (Cons t ts)
  from Cons.prems obtain st1 where s: "parse_step st t = Some st1"
    and l: "parse_loop st1 ts = Some st'" by (auto split: option.splits)
  from Cons.IH [OF parse_step_ok [OF Cons.prems(1) s] l] show ?case .
qed

lemma JSON_parse_ok: "JSON_parse text = Some v \<Longrightarrow> js_value_ok v"
proof -
  assume "JSON_parse text = Some v"
  then obtain ts where "parse_loop (PRun EValue []) ts = Some (PDone v)"
    by (auto simp: JSON_parse_def parse_tokens_def split: option.splits parse_state.splits)
  from parse_loop_ok [OF _ this] show ?thesis by simp
qed

subsection \<open>Mapping with a callback that may throw\<close>

lemma map_result_Inr_iff:
  "map_result f xs = Inr ys \<longleftrightarrow> list_all2 (\<lambda>x y. f x = Inr y) xs ys"
proof (induction xs arbitrary: ys)
  case Nil
  show ?case by auto
next
  case (Cons x xs)
  show ?case
  proof (cases "f x")
    case (Inl e)
    then show ?thesis by (auto simp: list_all2_Cons1)
  next
    case (Inr y)
    show ?thesis
    proof (cases "map_result f xs")
      case (Inl e)
      with Cons.IH have "\<And>zs. \<not> list_all2 (\<lambda>x y. f x = Inr y) xs zs" by simp
      with Inl Inr show ?thesis by (auto simp: list_all2_Cons1)
    next
      case inner: (Inr zs)
      with Cons.IH [of zs] have zs: "list_all2 (\<lambda>x y. f x = Inr y) xs zs" by simp
      show ?thesis
      proof
        assume "map_result f (x # xs) = Inr ys"
        with Inr inner have "ys = y # zs" by simp
        with Inr zs show "list_all2 (\<lambda>x y. f x = Inr y) (x # xs) ys" by simp
      next
        assume "list_all2 (\<lambda>x y. f x = Inr y) (x # xs) ys"
        then obtain y' zs' where ys: "ys = y' # zs'" and y': "f x = Inr y'"
          and zs': "list_all2 (\<lambda>x y. f x = Inr y) xs zs'" by (auto simp: list_all2_Cons1)
        from zs' Cons.IH [of zs'] inner have "zs' = zs" by simp
        with ys y' Inr inner show "map_result f (x # xs) = Inr ys" by simp
      qed
    qed
  qed
qed

lemma map_result_Inl: "map_result f xs = Inl e \<Longrightarrow> \<exists>x \<in> set xs. f x = Inl e"
  by (induction xs) (auto split: sum.splits)

lemma map_result_same: "\<forall>x \<in> set xs. f x = Inr x \<Longrightarrow> map_result f xs = Inr xs"
  by (induction xs) auto

lemma list_all2_exists: "\<forall>x \<in> set xs. \<exists>y. R x y \<Longrightarrow> \<exists>ys. list_all2 R xs ys"
  by (induction xs) (auto simp: list_all2_Cons1)

lemma list_all2_left: "list_all2 R xs ys \<Longrightarrow> x \<in> set xs \<Longrightarrow> \<exists>y \<in> set ys. R x y"
  by (induction rule: list_all2_induct) auto

lemma list_all2_right: "list_all2 R xs ys \<Longrightarrow> y \<in> set ys \<Longrightarrow> \<exists>x \<in> set xs. R x y"
  by (induction rule: list_all2_induct) auto

lemma entry_result_iff:
  "(case p of (k, v) \<Rightarrow> (case f v of Inl e \<Rightarrow> Inl e | Inr r \<Rightarrow> Inr (k, r))) = Inr q \<longleftrightarrow>
     fst q = fst p \<and> f (snd p) = Inr (snd q)"
  by (cases p; cases q) (auto split: sum.splits)

lemma entry_result_Inl:
  "(case p of (k, v) \<Rightarrow> (case f v of Inl e \<Rightarrow> Inl e | Inr r \<Rightarrow> Inr (k, r))) = Inl e \<Longrightarrow>
     f (snd p) = Inl e"
  by (cases p) (auto split: sum.splits)

lemma list_all2_same_keys:
  "list_all2 (\<lambda>p q. fst q = fst p \<and> R p q) ps qs \<Longrightarrow> map fst qs = map fst ps"
  by (induction rule: list_all2_induct) auto

subsection \<open>The depth of a call\<close>

lemma foldr_max_le: "foldr max ns 0 \<le> (d::nat) \<longleftrightarrow> (\<forall>n \<in> set ns. n \<le> d)"
  by (induction ns) auto

lemma call_depth_pos: "0 < call_depth v"
  by (cases v) (auto split: option.splits)

lemma call_depth_array: "call_depth (JArray xs) \<le> Suc d \<longleftrightarrow> (\<forall>x \<in> set xs. call_depth x \<le> d)"
  by (simp add: foldr_max_le)

lemma call_depth_object:
  "call_depth (JObject ps) \<le> Suc d \<longleftrightarrow> (\<forall>p \<in> set ps. call_depth (snd p) \<le> d)"
  by (auto simp: foldr_max_le Object_entries_def)

subsection \<open>The two equations with a callback\<close>

lemma resolve_array_iff:
  "parseNestedJson (Suc stack) (JArray xs) = Inr r \<longleftrightarrow>
     (\<exists>ys. r = JArray ys \<and> list_all2 (\<lambda>x y. parseNestedJson stack x = Inr y) xs ys)"
proof
  assume "parseNestedJson (Suc stack) (JArray xs) = Inr r"
  then obtain ys where m: "map_result (\<lambda>x. parseNestedJson stack x) xs = Inr ys"
    and r: "r = JArray ys" by (auto split: sum.splits)
  from m have "list_all2 (\<lambda>x y. parseNestedJson stack x = Inr y) xs ys"
    by (rule map_result_Inr_iff [THEN iffD1])
  with r show "\<exists>ys. r = JArray ys \<and> list_all2 (\<lambda>x y. parseNestedJson stack x = Inr y) xs ys"
    by blast
next
  assume "\<exists>ys. r = JArray ys \<and> list_all2 (\<lambda>x y. parseNestedJson stack x = Inr y) xs ys"
  then obtain ys where r: "r = JArray ys"
    and l: "list_all2 (\<lambda>x y. parseNestedJson stack x = Inr y) xs ys" by blast
  from l have "map_result (\<lambda>x. parseNestedJson stack x) xs = Inr ys"
    by (rule map_result_Inr_iff [THEN iffD2])
  with r show "parseNestedJson (Suc stack) (JArray xs) = Inr r" by simp
qed

lemma resolve_entries_iff:
  "map_result (\<lambda>(k, v). case parseNestedJson stack v of Inl e \<Rightarrow> Inl e | Inr r \<Rightarrow> Inr (k, r)) ps
     = Inr es \<longleftrightarrow>
   list_all2 (\<lambda>p q. fst q = fst p \<and> parseNestedJson stack (snd p) = Inr (snd q)) ps es"
proof -
  have "list_all2 (\<lambda>p q. (case p of (k, v) \<Rightarrow>
            (case parseNestedJson stack v of Inl e \<Rightarrow> Inl e | Inr r \<Rightarrow> Inr (k, r))) = Inr q) ps es
        \<longleftrightarrow> list_all2 (\<lambda>p q. fst q = fst p \<and> parseNestedJson stack (snd p) = Inr (snd q)) ps es"
    by (simp only: entry_result_iff)
  then show ?thesis by (simp only: map_result_Inr_iff)
qed

lemma resolve_object_iff:
  assumes "own_keys_ok ps"
  shows "parseNestedJson (Suc stack) (JObject ps) = Inr r \<longleftrightarrow>
     (\<exists>qs. r = JObject qs \<and>
        list_all2 (\<lambda>p q. fst q = fst p \<and> parseNestedJson stack (snd p) = Inr (snd q)) ps qs)"
proof
  assume "parseNestedJson (Suc stack) (JObject ps) = Inr r"
  then obtain es where m: "map_result
      (\<lambda>(k, v). case parseNestedJson stack v of Inl e \<Rightarrow> Inl e | Inr r \<Rightarrow> Inr (k, r)) ps = Inr es"
    and r: "r = JObject (Object_fromEntries es)"
    by (auto simp: Object_entries_def split: sum.splits)
  from m have l: "list_all2 (\<lambda>p q. fst q = fst p \<and> parseNestedJson stack (snd p) = Inr (snd q)) ps es"
    by (rule resolve_entries_iff [THEN iffD1])
  then have "map fst es = map fst ps" by (rule list_all2_same_keys)
  with assms have "own_keys_ok es" by (simp add: own_keys_ok_def)
  then have "Object_fromEntries es = es" by (rule Object_fromEntries_own)
  with r l show "\<exists>qs. r = JObject qs \<and>
        list_all2 (\<lambda>p q. fst q = fst p \<and> parseNestedJson stack (snd p) = Inr (snd q)) ps qs"
    by auto
next
  assume "\<exists>qs. r = JObject qs \<and>
        list_all2 (\<lambda>p q. fst q = fst p \<and> parseNestedJson stack (snd p) = Inr (snd q)) ps qs"
  then obtain qs where r: "r = JObject qs"
    and l: "list_all2 (\<lambda>p q. fst q = fst p \<and> parseNestedJson stack (snd p) = Inr (snd q)) ps qs"
    by blast
  from l have m: "map_result
      (\<lambda>(k, v). case parseNestedJson stack v of Inl e \<Rightarrow> Inl e | Inr r \<Rightarrow> Inr (k, r)) ps = Inr qs"
    by (rule resolve_entries_iff [THEN iffD2])
  from l have "map fst qs = map fst ps" by (rule list_all2_same_keys)
  with assms have "own_keys_ok qs" by (simp add: own_keys_ok_def)
  then have "Object_fromEntries qs = qs" by (rule Object_fromEntries_own)
  with m r show "parseNestedJson (Suc stack) (JObject ps) = Inr r"
    by (simp add: Object_entries_def)
qed

subsection \<open>What a call returns\<close>

lemma resolve_string_returns: "\<exists>r. parseNestedJson (Suc stack) (JString s) = Inr r"
  by (auto split: option.splits sum.splits)

lemma resolve_object_result:
  assumes "parseNestedJson (Suc stack) (JObject ps) = Inr r"
  obtains es where "r = JObject (Object_fromEntries es)"
    and "list_all2 (\<lambda>p q. fst q = fst p \<and> parseNestedJson stack (snd p) = Inr (snd q)) ps es"
proof -
  from assms obtain es where m: "map_result
      (\<lambda>(k, v). case parseNestedJson stack v of Inl e \<Rightarrow> Inl e | Inr r \<Rightarrow> Inr (k, r)) ps = Inr es"
    and r: "r = JObject (Object_fromEntries es)"
    by (auto simp: Object_entries_def split: sum.splits)
  from m have "list_all2 (\<lambda>p q. fst q = fst p \<and> parseNestedJson stack (snd p) = Inr (snd q)) ps es"
    by (rule resolve_entries_iff [THEN iffD1])
  with r that show ?thesis by blast
qed

lemma resolve_result_ok: "parseNestedJson stack v = Inr r \<Longrightarrow> js_value_ok r"
proof (induction stack arbitrary: v r)
  case 0
  then show ?case by simp
next
  case (Suc stack)
  show ?case
  proof (cases v)
    case (JString s)
    show ?thesis
    proof (cases "JSON_parse s")
      case None
      with Suc.prems JString show ?thesis by auto
    next
      case (Some v')
      show ?thesis
      proof (cases "parseNestedJson stack v'")
        case (Inl e)
        with Suc.prems JString Some show ?thesis by auto
      next
        case (Inr r')
        with Suc.prems JString Some have "r = r'" by simp
        with Suc.IH [OF Inr] show ?thesis by simp
      qed
    qed
  next
    case (JArray xs)
    from Suc.prems have "parseNestedJson (Suc stack) (JArray xs) = Inr r" unfolding JArray .
    then obtain ys where r: "r = JArray ys"
      and l: "list_all2 (\<lambda>x y. parseNestedJson stack x = Inr y) xs ys"
      unfolding resolve_array_iff by blast
    have "js_value_ok y" if "y \<in> set ys" for y
      using list_all2_right [OF l that] Suc.IH by blast
    with r show ?thesis by (simp add: list_all_iff)
  next
    case (JObject ps)
    from Suc.prems have "parseNestedJson (Suc stack) (JObject ps) = Inr r" unfolding JObject .
    then obtain es where r: "r = JObject (Object_fromEntries es)"
      and l: "list_all2 (\<lambda>p q. fst q = fst p \<and> parseNestedJson stack (snd p) = Inr (snd q)) ps es"
      by (rule resolve_object_result)
    have "js_value_ok (snd q)" if "q \<in> set es" for q
      using list_all2_right [OF l that] Suc.IH by blast
    then have "js_value_ok w" if "w \<in> snd ` set (Object_fromEntries es)" for w
      using that values_Object_fromEntries [of es] by auto
    with r show ?thesis by (auto simp: list_all_iff Object_fromEntries_ok)
  next
    case JNull
    with Suc.prems show ?thesis by auto
  next
    case (JBool b)
    with Suc.prems show ?thesis by auto
  next
    case (JNumber n)
    with Suc.prems show ?thesis by auto
  qed
qed

lemma resolve_error:
  "parseNestedJson stack v = Inl e \<Longrightarrow> e = RangeError \<and> stack < call_depth v"
proof (induction stack arbitrary: v)
  case 0
  then show ?case by (simp add: call_depth_pos)
next
  case (Suc stack)
  show ?case
  proof (cases v)
    case (JString s)
    with Suc.prems show ?thesis by (auto split: option.splits sum.splits)
  next
    case (JArray xs)
    with Suc.prems have "map_result (\<lambda>x. parseNestedJson stack x) xs = Inl e"
      by (auto split: sum.splits)
    then obtain x where x: "x \<in> set xs" "parseNestedJson stack x = Inl e"
      by (auto dest: map_result_Inl)
    from Suc.IH [OF x(2)] have e: "e = RangeError" and d: "stack < call_depth x" by simp_all
    from d x(1) have "\<not> call_depth (JArray xs) \<le> Suc stack"
      unfolding call_depth_array by (force simp: not_le)
    with e JArray show ?thesis by simp
  next
    case (JObject ps)
    with Suc.prems have "map_result
        (\<lambda>(k, v). case parseNestedJson stack v of Inl e \<Rightarrow> Inl e | Inr r \<Rightarrow> Inr (k, r)) ps = Inl e"
      by (auto simp: Object_entries_def split: sum.splits)
    from map_result_Inl [OF this] obtain p where pin: "p \<in> set ps"
      and pe: "(case p of (k, v) \<Rightarrow>
          (case parseNestedJson stack v of Inl e \<Rightarrow> Inl e | Inr r \<Rightarrow> Inr (k, r))) = Inl e"
      by blast
    from pin entry_result_Inl [OF pe]
    have p: "p \<in> set ps" "parseNestedJson stack (snd p) = Inl e" by simp_all
    from Suc.IH [OF p(2)] have e: "e = RangeError" and d: "stack < call_depth (snd p)" by simp_all
    from d p(1) have "\<not> call_depth (JObject ps) \<le> Suc stack"
      unfolding call_depth_object by (force simp: not_le)
    with e JObject show ?thesis by simp
  next
    case JNull
    with Suc.prems show ?thesis by simp
  next
    case (JBool b)
    with Suc.prems show ?thesis by simp
  next
    case (JNumber n)
    with Suc.prems show ?thesis by simp
  qed
qed

lemma enough_stack:
  "call_depth v \<le> stack \<Longrightarrow>
     \<exists>r. parseNestedJson stack v = Inr r \<and> no_json_strings r \<and> call_depth r \<le> stack"
proof (induction stack arbitrary: v)
  case 0
  with call_depth_pos [of v] show ?case by simp
next
  case (Suc stack)
  show ?case
  proof (cases v)
    case (JString s)
    show ?thesis
    proof (cases "JSON_parse s")
      case None
      with JString show ?thesis by simp
    next
      case (Some v')
      with Suc.prems JString have "call_depth v' \<le> stack" by simp
      from Suc.IH [OF this] obtain r where "parseNestedJson stack v' = Inr r"
        "no_json_strings r" "call_depth r \<le> stack" by blast
      with JString Some show ?thesis by simp
    qed
  next
    case (JArray xs)
    with Suc.prems have "\<forall>x \<in> set xs. call_depth x \<le> stack" by (simp only: call_depth_array)
    with Suc.IH have "\<forall>x \<in> set xs. \<exists>y. parseNestedJson stack x = Inr y \<and>
        no_json_strings y \<and> call_depth y \<le> stack" by blast
    then have "\<exists>ys. list_all2 (\<lambda>x y. parseNestedJson stack x = Inr y \<and>
        no_json_strings y \<and> call_depth y \<le> stack) xs ys"
      by (rule list_all2_exists)
    then obtain ys where l: "list_all2 (\<lambda>x y. parseNestedJson stack x = Inr y \<and>
        no_json_strings y \<and> call_depth y \<le> stack) xs ys" ..
    then have "list_all2 (\<lambda>x y. parseNestedJson stack x = Inr y) xs ys"
      by (rule list_all2_mono) simp
    then have r: "parseNestedJson (Suc stack) (JArray xs) = Inr (JArray ys)"
      unfolding resolve_array_iff by blast
    have each: "no_json_strings y \<and> call_depth y \<le> stack" if "y \<in> set ys" for y
      using list_all2_right [OF l that] by blast
    then have "no_json_strings (JArray ys)" by (simp add: list_all_iff)
    moreover from each have "call_depth (JArray ys) \<le> Suc stack"
      unfolding call_depth_array by blast
    ultimately show ?thesis using r JArray by blast
  next
    case (JObject ps)
    with Suc.prems have "\<forall>p \<in> set ps. call_depth (snd p) \<le> stack"
      by (simp only: call_depth_object)
    with Suc.IH have each_p: "\<forall>p \<in> set ps. \<exists>y. parseNestedJson stack (snd p) = Inr y \<and>
        no_json_strings y \<and> call_depth y \<le> stack" by blast
    have "\<forall>p \<in> set ps. \<exists>q. fst q = fst p \<and>
        (parseNestedJson stack (snd p) = Inr (snd q) \<and>
         no_json_strings (snd q) \<and> call_depth (snd q) \<le> stack)"
    proof
      fix p assume "p \<in> set ps"
      with each_p obtain y where "parseNestedJson stack (snd p) = Inr y \<and>
        no_json_strings y \<and> call_depth y \<le> stack" by blast
      then have "fst (fst p, y) = fst p \<and>
        (parseNestedJson stack (snd p) = Inr (snd (fst p, y)) \<and>
         no_json_strings (snd (fst p, y)) \<and> call_depth (snd (fst p, y)) \<le> stack)" by simp
      then show "\<exists>q. fst q = fst p \<and>
        (parseNestedJson stack (snd p) = Inr (snd q) \<and>
         no_json_strings (snd q) \<and> call_depth (snd q) \<le> stack)" by blast
    qed
    then have "\<exists>es. list_all2 (\<lambda>p q. fst q = fst p \<and>
        (parseNestedJson stack (snd p) = Inr (snd q) \<and>
         no_json_strings (snd q) \<and> call_depth (snd q) \<le> stack)) ps es"
      by (rule list_all2_exists)
    then obtain es where l: "list_all2 (\<lambda>p q. fst q = fst p \<and>
        (parseNestedJson stack (snd p) = Inr (snd q) \<and>
         no_json_strings (snd q) \<and> call_depth (snd q) \<le> stack)) ps es" ..
    then have "list_all2 (\<lambda>p q. fst q = fst p \<and> parseNestedJson stack (snd p) = Inr (snd q)) ps es"
      by (rule list_all2_mono) simp
    then have "map_result
        (\<lambda>(k, v). case parseNestedJson stack v of Inl e \<Rightarrow> Inl e | Inr r \<Rightarrow> Inr (k, r)) ps = Inr es"
      by (rule resolve_entries_iff [THEN iffD2])
    then have r: "parseNestedJson (Suc stack) (JObject ps) = Inr (JObject (Object_fromEntries es))"
      by (simp add: Object_entries_def)
    have each: "no_json_strings (snd q) \<and> call_depth (snd q) \<le> stack"
      if "q \<in> set (Object_fromEntries es)" for q
    proof -
      from that have "snd q \<in> snd ` set (Object_fromEntries es)" by (rule imageI)
      with values_Object_fromEntries [of es] have "snd q \<in> snd ` set es" by blast
      then obtain q' where q': "q' \<in> set es" "snd q' = snd q" by force
      from list_all2_right [OF l q'(1)] q'(2) show ?thesis by auto
    qed
    then have "no_json_strings (JObject (Object_fromEntries es))" by (simp add: list_all_iff)
    moreover from each have "call_depth (JObject (Object_fromEntries es)) \<le> Suc stack"
      unfolding call_depth_object by blast
    ultimately show ?thesis using r JObject by blast
  next
    case JNull
    then show ?thesis by simp
  next
    case (JBool b)
    then show ?thesis by simp
  next
    case (JNumber n)
    then show ?thesis by simp
  qed
qed

lemma resolve_fixed:
  "no_json_strings w \<Longrightarrow> js_value_ok w \<Longrightarrow> call_depth w \<le> stack \<Longrightarrow>
     parseNestedJson stack w = Inr w"
proof (induction stack arbitrary: w)
  case 0
  with call_depth_pos [of w] show ?case by simp
next
  case (Suc stack)
  show ?case
  proof (cases w)
    case (JString s)
    with Suc.prems show ?thesis by simp
  next
    case (JArray xs)
    with Suc.prems have d: "\<forall>x \<in> set xs. call_depth x \<le> stack" by (simp only: call_depth_array)
    from Suc.prems JArray have "\<forall>x \<in> set xs. no_json_strings x \<and> js_value_ok x"
      by (simp add: list_all_iff)
    with d Suc.IH have "\<forall>x \<in> set xs. parseNestedJson stack x = Inr x" by blast
    then have "map_result (\<lambda>x. parseNestedJson stack x) xs = Inr xs" by (rule map_result_same)
    with JArray show ?thesis by simp
  next
    case (JObject ps)
    with Suc.prems have d: "\<forall>p \<in> set ps. call_depth (snd p) \<le> stack"
      by (simp only: call_depth_object)
    from Suc.prems JObject have ok: "own_keys_ok ps"
      and "\<forall>p \<in> set ps. no_json_strings (snd p) \<and> js_value_ok (snd p)"
      by (simp_all add: list_all_iff)
    with d Suc.IH have "\<forall>p \<in> set ps. parseNestedJson stack (snd p) = Inr (snd p)" by blast
    then have "\<forall>p \<in> set ps.
        (case p of (k, v) \<Rightarrow> (case parseNestedJson stack v of Inl e \<Rightarrow> Inl e | Inr r \<Rightarrow> Inr (k, r)))
          = Inr p" by (auto simp: entry_result_iff)
    then have "map_result
        (\<lambda>(k, v). case parseNestedJson stack v of Inl e \<Rightarrow> Inl e | Inr r \<Rightarrow> Inr (k, r)) ps = Inr ps"
      by (rule map_result_same)
    with JObject Object_fromEntries_own [OF ok] show ?thesis by (simp add: Object_entries_def)
  next
    case JNull
    then show ?thesis by simp
  next
    case (JBool b)
    then show ?thesis by simp
  next
    case (JNumber n)
    then show ?thesis by simp
  qed
qed

lemma resolve_twice:
  assumes "call_depth v \<le> stack" "parseNestedJson stack v = Inr r"
  shows "parseNestedJson stack r = Inr r"
proof -
  from enough_stack [OF assms(1)] assms(2) have "no_json_strings r" "call_depth r \<le> stack"
    by auto
  with resolve_result_ok [OF assms(2)] show ?thesis by (intro resolve_fixed)
qed

lemma foldr_max_gt: "d < foldr max ns 0 \<longleftrightarrow> (\<exists>n \<in> set ns. (d::nat) < n)"
  using foldr_max_le [of ns d] by (auto simp: not_le [symmetric])

lemma stack_too_small:
  "js_value_ok v \<Longrightarrow> stack < call_depth v \<Longrightarrow> parseNestedJson stack v = Inr r \<Longrightarrow>
     \<not> no_json_strings r"
proof (induction stack arbitrary: v r)
  case 0
  then show ?case by simp
next
  case (Suc stack)
  show ?case
  proof (cases v)
    case (JString s)
    show ?thesis
    proof (cases "JSON_parse s")
      case None
      with Suc.prems JString show ?thesis by simp
    next
      case (Some v')
      with Suc.prems JString have d: "stack < call_depth v'" by simp
      from Some have ok: "js_value_ok v'" by (rule JSON_parse_ok)
      show ?thesis
      proof (cases "parseNestedJson stack v'")
        case (Inl e)
        with Suc.prems JString Some have "r = JString s" by simp
        with Some show ?thesis by simp
      next
        case (Inr r')
        with Suc.prems JString Some have "r = r'" by simp
        with Suc.IH [OF ok d Inr] show ?thesis by simp
      qed
    qed
  next
    case (JArray xs)
    from Suc.prems(3) have "parseNestedJson (Suc stack) (JArray xs) = Inr r" unfolding JArray .
    then obtain ys where r: "r = JArray ys"
      and l: "list_all2 (\<lambda>x y. parseNestedJson stack x = Inr y) xs ys"
      unfolding resolve_array_iff by blast
    from Suc.prems JArray have "stack < foldr max (map call_depth xs) 0" by simp
    then obtain x where x: "x \<in> set xs" "stack < call_depth x"
      unfolding foldr_max_gt by auto
    from Suc.prems JArray x(1) have ok: "js_value_ok x" by (simp add: list_all_iff)
    from list_all2_left [OF l x(1)] obtain y where y: "y \<in> set ys" "parseNestedJson stack x = Inr y"
      by blast
    from Suc.IH [OF ok x(2) y(2)] y(1) r show ?thesis by (auto simp: list_all_iff)
  next
    case (JObject ps)
    from Suc.prems JObject have oko: "own_keys_ok ps" by simp
    from Suc.prems(3) have "parseNestedJson (Suc stack) (JObject ps) = Inr r" unfolding JObject .
    then obtain qs where r: "r = JObject qs"
      and l: "list_all2 (\<lambda>p q. fst q = fst p \<and> parseNestedJson stack (snd p) = Inr (snd q)) ps qs"
      unfolding resolve_object_iff [OF oko] by blast
    from Suc.prems JObject
    have "stack < foldr max (map (\<lambda>(k, v). call_depth v) ps) 0"
      by (simp add: Object_entries_def)
    then obtain p where p: "p \<in> set ps" "stack < call_depth (snd p)"
      unfolding foldr_max_gt by auto
    from Suc.prems JObject p(1) have ok: "js_value_ok (snd p)" by (simp add: list_all_iff)
    from list_all2_left [OF l p(1)] obtain q where q: "q \<in> set qs"
      "parseNestedJson stack (snd p) = Inr (snd q)" by blast
    from Suc.IH [OF ok p(2) q(2)] q(1) r show ?thesis by (auto simp: list_all_iff)
  next
    case JNull
    with Suc.prems show ?thesis by simp
  next
    case (JBool b)
    with Suc.prems show ?thesis by simp
  next
    case (JNumber n)
    with Suc.prems show ?thesis by simp
  qed
qed

lemma resolve_keeps_leaf:
  "js_value_ok v \<Longrightarrow> s \<in> string_leaves v \<Longrightarrow> JSON_parse s = None \<Longrightarrow>
     parseNestedJson stack v = Inr r \<Longrightarrow> s \<in> string_leaves r"
proof (induction stack arbitrary: v r)
  case 0
  then show ?case by simp
next
  case (Suc stack)
  show ?case
  proof (cases v)
    case (JString s')
    with Suc.prems show ?thesis by auto
  next
    case (JArray xs)
    from Suc.prems(4) have "parseNestedJson (Suc stack) (JArray xs) = Inr r" unfolding JArray .
    then obtain ys where r: "r = JArray ys"
      and l: "list_all2 (\<lambda>x y. parseNestedJson stack x = Inr y) xs ys"
      unfolding resolve_array_iff by blast
    from Suc.prems JArray obtain x where x: "x \<in> set xs" "s \<in> string_leaves x" by auto
    from Suc.prems JArray x(1) have ok: "js_value_ok x" by (simp add: list_all_iff)
    from list_all2_left [OF l x(1)] obtain y where y: "y \<in> set ys" "parseNestedJson stack x = Inr y"
      by blast
    from Suc.IH [OF ok x(2) Suc.prems(3) y(2)] y(1) r show ?thesis by auto
  next
    case (JObject ps)
    from Suc.prems JObject have oko: "own_keys_ok ps" by simp
    from Suc.prems(4) have "parseNestedJson (Suc stack) (JObject ps) = Inr r" unfolding JObject .
    then obtain qs where r: "r = JObject qs"
      and l: "list_all2 (\<lambda>p q. fst q = fst p \<and> parseNestedJson stack (snd p) = Inr (snd q)) ps qs"
      unfolding resolve_object_iff [OF oko] by blast
    from Suc.prems JObject obtain p where p: "p \<in> set ps" "s \<in> string_leaves (snd p)" by auto
    from Suc.prems JObject p(1) have ok: "js_value_ok (snd p)" by (simp add: list_all_iff)
    from list_all2_left [OF l p(1)] obtain q where q: "q \<in> set qs"
      "parseNestedJson stack (snd p) = Inr (snd q)" by blast
    from Suc.IH [OF ok p(2) Suc.prems(3) q(2)] q(1) r show ?thesis by auto
  next
    case JNull
    with Suc.prems show ?thesis by simp
  next
    case (JBool b)
    with Suc.prems show ?thesis by simp
  next
    case (JNumber n)
    with Suc.prems show ?thesis by simp
  qed
qed

subsection \<open>Deeply nested arrays\<close>

lemma nest_from_wrap: "nest_from n (JArray [v]) = JArray [nest_from n v]"
  by (induction n arbitrary: v) simp_all

lemma nest_array_from: "nest_array n = nest_from n (JArray [])"
  by (induction n) (simp_all add: nest_from_wrap)

lemma lex_loop_append:
  "lex_loop st (xs @ ys) = (case lex_loop st xs of None \<Rightarrow> None | Some st' \<Rightarrow> lex_loop st' ys)"
  by (induction xs arbitrary: st) (auto split: option.splits)

lemma lex_open_brackets:
  "lex_loop (LStart, toks) (replicate n 0x5B) = Some (LStart, replicate n TLBrack @ toks)"
proof (induction n arbitrary: toks)
  case 0
  show ?case by simp
next
  case (Suc n)
  have "lex_step (LStart, toks) 0x5B = Some (LStart, TLBrack # toks)"
    by (simp add: lex_start_def is_json_space_def)
  with Suc [of "TLBrack # toks"] show ?case by (simp add: replicate_app_Cons_same)
qed

lemma lex_close_brackets:
  "lex_loop (LStart, toks) (replicate n 0x5D) = Some (LStart, replicate n TRBrack @ toks)"
proof (induction n arbitrary: toks)
  case 0
  show ?case by simp
next
  case (Suc n)
  have "lex_step (LStart, toks) 0x5D = Some (LStart, TRBrack # toks)"
    by (simp add: lex_start_def is_json_space_def)
  with Suc [of "TRBrack # toks"] show ?case by (simp add: replicate_app_Cons_same)
qed

lemma tokenize_nest_text:
  "tokenize (nest_text n) = Some (replicate (Suc n) TLBrack @ replicate (Suc n) TRBrack)"
proof -
  have "lex_loop (LStart, []) (nest_text n) =
          Some (LStart, replicate (Suc n) TRBrack @ replicate (Suc n) TLBrack)"
    unfolding nest_text_def lex_loop_append lex_open_brackets
    using lex_close_brackets [of "replicate (Suc n) TLBrack @ []" "Suc n"] by simp
  then show ?thesis
    by (simp add: tokenize_def replicate_app_Cons_same replicate_append_same)
qed

lemma parse_open_brackets:
  "e = EValue \<or> e = EValueOrEnd \<Longrightarrow>
     parse_loop (PRun e stack) (replicate (Suc n) TLBrack @ rest) =
     parse_loop (PRun EValueOrEnd (replicate (Suc n) (InArray []) @ stack)) rest"
proof (induction n arbitrary: e stack)
  case 0
  then show ?case by (auto simp: parse_value_def)
next
  case (Suc n)
  from Suc.prems have "parse_step (PRun e stack) TLBrack = Some (PRun EValueOrEnd (InArray [] # stack))"
    by (auto simp: parse_value_def)
  then have "parse_loop (PRun e stack) (replicate (Suc (Suc n)) TLBrack @ rest) =
      parse_loop (PRun EValueOrEnd (InArray [] # stack)) (replicate (Suc n) TLBrack @ rest)"
    by simp
  also have "\<dots> = parse_loop (PRun EValueOrEnd (replicate (Suc n) (InArray []) @ InArray [] # stack)) rest"
    by (rule Suc.IH) simp
  also have "replicate (Suc n) (InArray []) @ InArray [] # stack =
      replicate (Suc (Suc n)) (InArray []) @ stack"
    by (simp add: replicate_app_Cons_same)
  finally show ?case .
qed

lemma parse_close_brackets:
  "parse_loop (PRun ECommaOrEnd (InArray [v] # replicate m (InArray []))) (replicate (Suc m) TRBrack)
     = Some (PDone (nest_from (Suc m) v))"
proof (induction m arbitrary: v)
  case 0
  show ?case by simp
next
  case (Suc m)
  have "parse_step (PRun ECommaOrEnd (InArray [v] # replicate (Suc m) (InArray []))) TRBrack =
      Some (PRun ECommaOrEnd (InArray [JArray [v]] # replicate m (InArray [])))"
    by simp
  then have "parse_loop (PRun ECommaOrEnd (InArray [v] # replicate (Suc m) (InArray [])))
        (replicate (Suc (Suc m)) TRBrack) =
      parse_loop (PRun ECommaOrEnd (InArray [JArray [v]] # replicate m (InArray [])))
        (replicate (Suc m) TRBrack)"
    by simp
  with Suc [of "JArray [v]"] show ?case by simp
qed

lemma parse_tokens_nest:
  "parse_tokens (replicate (Suc n) TLBrack @ replicate (Suc n) TRBrack) = Some (nest_array n)"
proof -
  have open_all: "parse_loop (PRun EValue []) (replicate (Suc n) TLBrack @ replicate (Suc n) TRBrack) =
      parse_loop (PRun EValueOrEnd (replicate (Suc n) (InArray []) @ [])) (replicate (Suc n) TRBrack)"
    by (rule parse_open_brackets) simp
  have "parse_loop (PRun EValueOrEnd (replicate (Suc n) (InArray []))) (replicate (Suc n) TRBrack) =
      Some (PDone (nest_array n))"
  proof (cases n)
    case 0
    then show ?thesis by simp
  next
    case (Suc m)
    have "parse_step (PRun EValueOrEnd (replicate (Suc (Suc m)) (InArray []))) TRBrack =
        Some (PRun ECommaOrEnd (InArray [JArray []] # replicate m (InArray [])))"
      by simp
    then have "parse_loop (PRun EValueOrEnd (replicate (Suc (Suc m)) (InArray [])))
          (replicate (Suc (Suc m)) TRBrack) =
        parse_loop (PRun ECommaOrEnd (InArray [JArray []] # replicate m (InArray [])))
          (replicate (Suc m) TRBrack)"
      by simp
    also have "\<dots> = Some (PDone (nest_from (Suc m) (JArray [])))"
      by (rule parse_close_brackets)
    finally show ?thesis using Suc by (simp only: nest_array_from)
  qed
  with open_all show ?thesis by (simp add: parse_tokens_def)
qed

lemma JSON_parse_nest_text: "JSON_parse (nest_text n) = Some (nest_array n)"
  by (simp only: JSON_parse_def tokenize_nest_text option.case parse_tokens_nest)

lemma nest_array_overflow: "parseNestedJson stack (nest_array stack) = Inl RangeError"
  by (induction stack) simp_all

lemma call_depth_nest_array: "call_depth (nest_array n) = Suc n"
  by (induction n) simp_all

lemma nest_array_plain: "no_json_strings (nest_array n) \<and> js_value_ok (nest_array n)"
  by (induction n) (simp_all add: own_keys_ok_def)

lemma nest_array_resolves: "parseNestedJson (Suc stack) (nest_array stack) = Inr (nest_array stack)"
  using nest_array_plain [of stack] call_depth_nest_array [of stack]
  by (intro resolve_fixed) simp_all

lemma nest_text_unresolved:
  "parseNestedJson (Suc stack) (JString (nest_text stack)) = Inr (JString (nest_text stack))"
  by (simp add: JSON_parse_nest_text nest_array_overflow)

lemma nest_text_resolved:
  "parseNestedJson (Suc (Suc stack)) (JString (nest_text stack)) = Inr (nest_array stack)"
  using nest_array_resolves [of stack] by (simp add: JSON_parse_nest_text)

subsection \<open>The result does not depend on the room that is left over\<close>

lemma map_result_cong_set: "\<forall>x \<in> set xs. f x = g x \<Longrightarrow> map_result f xs = map_result g xs"
  by (induction xs) (auto split: sum.splits)

lemma resolve_stack_step: "call_depth v \<le> stack \<Longrightarrow> parseNestedJson (Suc stack) v = parseNestedJson stack v"
proof (induction stack arbitrary: v)
  case 0
  with call_depth_pos [of v] show ?case by simp
next
  case (Suc stack)
  show ?case
  proof (cases v)
    case (JString s)
    show ?thesis
    proof (cases "JSON_parse s")
      case None
      with JString show ?thesis by simp
    next
      case (Some v')
      with Suc.prems JString have "call_depth v' \<le> stack" by simp
      from Suc.IH [OF this] JString Some show ?thesis by simp
    qed
  next
    case (JArray xs)
    from Suc.prems have "\<forall>x \<in> set xs. call_depth x \<le> stack"
      unfolding JArray call_depth_array .
    with Suc.IH have "\<forall>x \<in> set xs. parseNestedJson (Suc stack) x = parseNestedJson stack x"
      by blast
    then have "map_result (\<lambda>x. parseNestedJson (Suc stack) x) xs =
        map_result (\<lambda>x. parseNestedJson stack x) xs"
      by (rule map_result_cong_set)
    with JArray show ?thesis by simp
  next
    case (JObject ps)
    from Suc.prems have "\<forall>p \<in> set ps. call_depth (snd p) \<le> stack"
      unfolding JObject call_depth_object .
    with Suc.IH have "\<forall>p \<in> set ps.
        (case p of (k, v) \<Rightarrow>
           (case parseNestedJson (Suc stack) v of Inl e \<Rightarrow> Inl e | Inr r \<Rightarrow> Inr (k, r))) =
        (case p of (k, v) \<Rightarrow>
           (case parseNestedJson stack v of Inl e \<Rightarrow> Inl e | Inr r \<Rightarrow> Inr (k, r)))"
      by (auto split: prod.splits)
    then have "map_result
          (\<lambda>(k, v). case parseNestedJson (Suc stack) v of Inl e \<Rightarrow> Inl e | Inr r \<Rightarrow> Inr (k, r)) ps =
        map_result
          (\<lambda>(k, v). case parseNestedJson stack v of Inl e \<Rightarrow> Inl e | Inr r \<Rightarrow> Inr (k, r)) ps"
      by (rule map_result_cong_set)
    with JObject show ?thesis by (simp add: Object_entries_def)
  next
    case JNull
    then show ?thesis by simp
  next
    case (JBool b)
    then show ?thesis by simp
  next
    case (JNumber n)
    then show ?thesis by simp
  qed
qed

lemma resolve_more_stack:
  "call_depth v \<le> stack \<Longrightarrow> parseNestedJson (stack + n) v = parseNestedJson stack v"
proof (induction n)
  case 0
  show ?case by simp
next
  case (Suc n)
  then have "call_depth v \<le> stack + n" by simp
  from resolve_stack_step [OF this] Suc show ?case by simp
qed

subsection \<open>Element by element\<close>

lemma list_all2_map_eq:
  "list_all2 (\<lambda>x y. f x = g y) xs ys \<longleftrightarrow> map f xs = map g ys"
proof -
  have "map f xs = map g ys \<longleftrightarrow> list_all2 (=) (map f xs) (map g ys)"
    by (simp only: list.rel_eq)
  also have "\<dots> \<longleftrightarrow> list_all2 (\<lambda>x y. f x = g y) xs ys"
    by (simp only: list_all2_map1 list_all2_map2)
  finally show ?thesis by simp
qed

lemma entries_map_eq:
  "list_all2 (\<lambda>p q. fst q = fst p \<and> f (snd p) = Inr (snd q)) ps qs \<longleftrightarrow>
     map (\<lambda>(k, v). (k, f v)) ps = map (\<lambda>(k, r). (k, Inr r)) qs"
proof (induction ps arbitrary: qs)
  case Nil
  show ?case by auto
next
  case (Cons p ps)
  show ?case
  proof (cases qs)
    case Nil
    then show ?thesis by simp
  next
    case (Cons q qs')
    with Cons.IH [of qs'] show ?thesis by (cases p; cases q) auto
  qed
qed

lemma resolve_array_map:
  "parseNestedJson (Suc stack) (JArray xs) = Inr r \<longleftrightarrow>
     (\<exists>ys. r = JArray ys \<and> map (parseNestedJson stack) xs = map Inr ys)"
  unfolding resolve_array_iff list_all2_map_eq ..

lemma resolve_object_map:
  "own_keys_ok ps \<Longrightarrow>
   parseNestedJson (Suc stack) (JObject ps) = Inr r \<longleftrightarrow>
     (\<exists>qs. r = JObject qs \<and>
        map (\<lambda>(k, v). (k, parseNestedJson stack v)) ps = map (\<lambda>(k, r). (k, Inr r)) qs)"
  unfolding resolve_object_iff entries_map_eq ..

subsection \<open>An error inside an array or an object\<close>

lemma map_result_throws: "x \<in> set xs \<Longrightarrow> f x = Inl e \<Longrightarrow> \<exists>e'. map_result f xs = Inl e'"
  by (induction xs) (auto split: sum.splits)

lemma resolve_array_throws:
  assumes "x \<in> set xs" and "parseNestedJson stack x = Inl e"
  shows "parseNestedJson (Suc stack) (JArray xs) = Inl RangeError"
proof -
  from assms have "\<exists>e'. map_result (\<lambda>x. parseNestedJson stack x) xs = Inl e'"
    by (rule map_result_throws)
  then obtain e' where "map_result (\<lambda>x. parseNestedJson stack x) xs = Inl e'" ..
  then have t: "parseNestedJson (Suc stack) (JArray xs) = Inl e'" by simp
  from resolve_error [OF t] t show ?thesis by simp
qed

lemma resolve_object_throws:
  assumes "(k, x) \<in> set ps" and "parseNestedJson stack x = Inl e"
  shows "parseNestedJson (Suc stack) (JObject ps) = Inl RangeError"
proof -
  let ?f = "\<lambda>(k, v). case parseNestedJson stack v of Inl e \<Rightarrow> Inl e | Inr r \<Rightarrow> Inr (k, r)"
  from assms(2) have "?f (k, x) = Inl e" by simp
  with assms(1) have "\<exists>e'. map_result ?f ps = Inl e'" by (rule map_result_throws)
  then obtain e' where "map_result ?f ps = Inl e'" ..
  then have t: "parseNestedJson (Suc stack) (JObject ps) = Inl e'"
    by (simp add: Object_entries_def)
  from resolve_error [OF t] t show ?thesis by simp
qed

subsection \<open>Encoded strings\<close>

lemma lex_quoted_body:
  "\<forall>c \<in> set s. 0x20 \<le> c \<Longrightarrow>
     lex_loop (LStr acc, toks)
       (concat (map (\<lambda>c. if c = DQUOTE \<or> c = BACKSLASH then [BACKSLASH, c] else [c]) s) @ rest)
     = lex_loop (LStr (rev s @ acc), toks) rest"
proof (induction s arbitrary: acc)
  case Nil
  show ?case by simp
next
  case (Cons c s)
  from Cons.prems have c: "\<not> c < 0x20" and s: "\<forall>c \<in> set s. 0x20 \<le> c" by (auto simp: not_less)
  have "lex_loop (LStr acc, toks)
          ((if c = DQUOTE \<or> c = BACKSLASH then [BACKSLASH, c] else [c]) @ xs)
        = lex_loop (LStr (c # acc), toks) xs" for xs
    using c by (auto simp: DQUOTE_def BACKSLASH_def escape_value_def)
  with Cons.IH [OF s, of "c # acc"] show ?case by simp
qed

lemma tokenize_quote_plain:
  assumes "\<forall>c \<in> set s. 0x20 \<le> c"
  shows "tokenize (quote_plain s) = Some [TStr s]"
proof -
  have "lex_loop (LStart, []) (quote_plain s) =
          lex_loop (LStr [], [])
            (concat (map (\<lambda>c. if c = DQUOTE \<or> c = BACKSLASH then [BACKSLASH, c] else [c]) s) @ [DQUOTE])"
    by (simp add: quote_plain_def lex_start_def DQUOTE_def is_json_space_def)
  also have "\<dots> = lex_loop (LStr (rev s @ []), []) [DQUOTE]"
    by (rule lex_quoted_body [OF assms])
  also have "\<dots> = Some (LStart, [TStr s])" by (simp add: DQUOTE_def)
  finally show ?thesis by (simp add: tokenize_def)
qed

lemma JSON_parse_quote_plain:
  "\<forall>c \<in> set s. 0x20 \<le> c \<Longrightarrow> JSON_parse (quote_plain s) = Some (JString s)"
  by (simp add: JSON_parse_def tokenize_quote_plain parse_tokens_def parse_value_def)

lemma nest_text_printable: "\<forall>c \<in> set (nest_text n). 0x20 \<le> c"
  by (auto simp: nest_text_def)

text \<open>
  Resolving twice is not always resolving once when the stack is short. Under one more
  level of encoding the text of the nested arrays is reached with one activation less, so
  the first call gives it back as a string; the second call starts on that string and
  resolves it.
\<close>

lemma resolve_twice_differs:
  "parseNestedJson (Suc (Suc stack)) (JString (quote_plain (nest_text stack))) =
     Inr (JString (nest_text stack)) \<and>
   parseNestedJson (Suc (Suc stack)) (JString (nest_text stack)) = Inr (nest_array stack)"
proof
  have "JSON_parse (quote_plain (nest_text stack)) = Some (JString (nest_text stack))"
    by (rule JSON_parse_quote_plain [OF nest_text_printable])
  with nest_text_unresolved [of stack]
  show "parseNestedJson (Suc (Suc stack)) (JString (quote_plain (nest_text stack))) =
     Inr (JString (nest_text stack))" by simp
  show "parseNestedJson (Suc (Suc stack)) (JString (nest_text stack)) = Inr (nest_array stack)"
    by (rule nest_text_resolved)
qed

section \<open>The claims on the resolver\<close>

text \<open>
  Claim C1, as stated, fails: it says that the resolver returns a value for every input
  and never fails. Whatever room the call stack has, say for \<open>stack\<close> activations, the empty
  array inside \<open>stack\<close> arrays is a well-formed value that takes one activation more, and
  the call on it throws \<open>RangeError\<close>.
\<close>

theorem resolver_total_counterexample:
  "\<forall>stack. js_value_ok (nest_array stack) \<and>
     call_depth (nest_array stack) = Suc stack \<and>
     parseNestedJson stack (nest_array stack) = Inl RangeError"
  using nest_array_plain call_depth_nest_array nest_array_overflow by blast

text \<open>
  Claim C1, amended: the resolver returns a value whenever the call stack has room for
  the nested calls it makes, and every value needs finitely many, \<open>call_depth v\<close>; with room
  to spare the result is the same. It throws nothing but \<open>RangeError\<close>, and only when the
  room is less than that. A call on a string never throws: a string whose text does not
  parse as JSON is returned unchanged, and it stays a leaf of the result wherever it
  stands in a well-formed value.
\<close>

theorem resolver_total_within_stack:
  "(\<exists>r. parseNestedJson (call_depth v) v = Inr r) \<and>
   (call_depth v \<le> stack \<longrightarrow> parseNestedJson stack v = parseNestedJson (call_depth v) v) \<and>
   (parseNestedJson stack v = Inl e \<longrightarrow> e = RangeError \<and> stack < call_depth v) \<and>
   (\<exists>r. parseNestedJson (Suc stack) (JString s) = Inr r) \<and>
   (JSON_parse s = None \<longrightarrow> parseNestedJson (Suc stack) (JString s) = Inr (JString s)) \<and>
   (js_value_ok v \<and> s \<in> string_leaves v \<and> JSON_parse s = None \<and>
    parseNestedJson stack v = Inr r \<longrightarrow> s \<in> string_leaves r)"
proof (intro conjI impI)
  from enough_stack [of v "call_depth v"]
  show "\<exists>r. parseNestedJson (call_depth v) v = Inr r" by blast
  show "parseNestedJson stack v = parseNestedJson (call_depth v) v" if "call_depth v \<le> stack"
    using that resolve_more_stack [of v "call_depth v" "stack - call_depth v"] by simp
  show "e = RangeError" if "parseNestedJson stack v = Inl e"
    using resolve_error [OF that] by simp
  show "stack < call_depth v" if "parseNestedJson stack v = Inl e"
    using resolve_error [OF that] by simp
  show "\<exists>r. parseNestedJson (Suc stack) (JString s) = Inr r"
    by (rule resolve_string_returns)
  show "parseNestedJson (Suc stack) (JString s) = Inr (JString s)" if "JSON_parse s = None"
    using that by simp
  show "s \<in> string_leaves r"
    if "js_value_ok v \<and> s \<in> string_leaves v \<and> JSON_parse s = None \<and>
        parseNestedJson stack v = Inr r"
    using that resolve_keeps_leaf [of v s stack r] by blast
qed

text \<open>
  The string \<open>hello world\<close>, alone and inside \<open>{"msg":"hello world"}\<close>: the object takes two
  activations.
\<close>

theorem resolver_total_within_stack_witness:
  "JSON_parse (js ''hello world'') = None \<and>
   call_depth ex_msg = 2 \<and>
   parseNestedJson 3 ex_msg = Inr ex_msg \<and>
   parseNestedJson 1 ex_msg = Inl RangeError \<and>
   parseNestedJson 1 (JString (js ''hello world'')) = Inr (JString (js ''hello world'')) \<and>
   js ''hello world'' \<in> string_leaves ex_msg"
proof -
  have p: "JSON_parse (js ''hello world'') = None" by code_simp
  have d: "call_depth ex_msg = 2" by (simp add: ex_msg_def p Object_entries_def)
  have two: "parseNestedJson 2 ex_msg = Inr ex_msg" by code_simp
  have one: "parseNestedJson 1 ex_msg = Inl RangeError" by code_simp
  have ok: "js_value_ok ex_msg" by code_simp
  have leaf: "js ''hello world'' \<in> string_leaves ex_msg" by (simp add: ex_msg_def)
  note t = resolver_total_within_stack
    [where v = ex_msg and stack = 3 and s = "js ''hello world''" and r = ex_msg]
  note u = resolver_total_within_stack
    [where v = ex_msg and stack = 0 and s = "js ''hello world''" and e = RangeError]
  from t d two have three: "parseNestedJson 3 ex_msg = Inr ex_msg" by simp
  from u p have "parseNestedJson 1 (JString (js ''hello world'')) = Inr (JString (js ''hello world''))"
    by simp
  moreover from t three ok leaf p have "js ''hello world'' \<in> string_leaves ex_msg" by blast
  ultimately show ?thesis using p d three one by blast
qed

text \<open>
  Claim C2, as stated, fails: it says that no string inside the result parses as JSON.
  The \<open>catch\<close> around the recursive call takes the \<open>RangeError\<close> from below as it takes a
  \<open>SyntaxError\<close>: when the room on the stack ends under a string, the string comes back
  as it is, although its text parses. So it is for the text of the empty array inside
  \<open>stack\<close> arrays, \<open>2 * stack + 2\<close> brackets, when the call has room for \<open>stack + 1\<close>
  activations.
\<close>

theorem resolve_fixpoint_counterexample:
  "\<forall>stack. JSON_parse (nest_text stack) = Some (nest_array stack) \<and>
     parseNestedJson (Suc stack) (JString (nest_text stack)) = Inr (JString (nest_text stack)) \<and>
     \<not> no_json_strings (JString (nest_text stack))"
  using JSON_parse_nest_text nest_text_unresolved by simp

text \<open>
  Claim C2, amended: when the call stack has room for the nested calls that \<open>v\<close> takes,
  no string inside the result parses as JSON, and resolving the result again gives the
  result. A well-formed value in which no string parses as JSON is returned unchanged
  when the stack has room for it.
\<close>

theorem resolve_fixpoint_within_stack:
  "(call_depth v \<le> stack \<and> parseNestedJson stack v = Inr r \<longrightarrow>
      no_json_strings r \<and> parseNestedJson stack r = Inr r) \<and>
   (no_json_strings w \<and> js_value_ok w \<and> call_depth w \<le> stack \<longrightarrow>
      parseNestedJson stack w = Inr w)"
proof (intro conjI impI)
  show "no_json_strings r" if h: "call_depth v \<le> stack \<and> parseNestedJson stack v = Inr r"
  proof -
    from h enough_stack [of v stack]
    obtain r' where "parseNestedJson stack v = Inr r'" "no_json_strings r'" by blast
    with h show ?thesis by simp
  qed
  show "parseNestedJson stack r = Inr r"
    if "call_depth v \<le> stack \<and> parseNestedJson stack v = Inr r"
    using that resolve_twice [of v stack r] by blast
  show "parseNestedJson stack w = Inr w"
    if "no_json_strings w \<and> js_value_ok w \<and> call_depth w \<le> stack"
    using that resolve_fixed [of w stack] by blast
qed

text \<open>
  \<open>{"data":"{\"name\":\"John\",\"age\":30}"}\<close> takes four activations; its result and
  \<open>{"msg":"hello world"}\<close> resolve to themselves.
\<close>

theorem resolve_fixpoint_within_stack_witness:
  "call_depth ex_data = 4 \<and>
   parseNestedJson 4 ex_data = Inr (JObject [(js ''data'', ex_john)]) \<and>
   no_json_strings (JObject [(js ''data'', ex_john)]) \<and>
   parseNestedJson 4 (JObject [(js ''data'', ex_john)]) = Inr (JObject [(js ''data'', ex_john)]) \<and>
   no_json_strings ex_msg \<and> js_value_ok ex_msg \<and> parseNestedJson 4 ex_msg = Inr ex_msg"
proof -
  have p: "JSON_parse ex_john_text = Some ex_john" by code_simp
  have pj: "JSON_parse (js ''John'') = None" by code_simp
  have d: "call_depth ex_data = 4"
    by (simp add: ex_data_def p pj ex_john_def Object_entries_def)
  have r: "parseNestedJson 4 ex_data = Inr (JObject [(js ''data'', ex_john)])" by code_simp
  have n: "no_json_strings ex_msg" by code_simp
  have ok: "js_value_ok ex_msg" by code_simp
  have p': "JSON_parse (js ''hello world'') = None" by code_simp
  have d': "call_depth ex_msg \<le> 4" by (simp add: ex_msg_def p' Object_entries_def)
  note t = resolve_fixpoint_within_stack
    [where v = ex_data and stack = 4 and r = "JObject [(js ''data'', ex_john)]" and w = ex_msg]
  from t d r have "no_json_strings (JObject [(js ''data'', ex_john)])"
    and "parseNestedJson 4 (JObject [(js ''data'', ex_john)]) = Inr (JObject [(js ''data'', ex_john)])"
    by simp_all
  moreover from t n ok d' have "parseNestedJson 4 ex_msg = Inr ex_msg" by blast
  ultimately show ?thesis using d r n ok by blast
qed

text \<open>
  Claim C3: \<open>null\<close>, booleans and numbers are returned unchanged. A call on an array
  returns exactly when the calls on its elements return, and then the result is the array
  of their results, element by element, in order. A call on an object returns exactly
  when the calls on its values return, and then the result has the same keys in the same
  order, each with the result of its value; no key is parsed. The object is given by the
  list of its own properties, which for every JavaScript object satisfies \<open>own_keys_ok\<close>.
  \<open>Suc stack\<close> is the room of a call that has room for itself.
\<close>

theorem resolve_structure:
  "parseNestedJson (Suc stack) JNull = Inr JNull \<and>
   parseNestedJson (Suc stack) (JBool b) = Inr (JBool b) \<and>
   parseNestedJson (Suc stack) (JNumber n) = Inr (JNumber n) \<and>
   (parseNestedJson (Suc stack) (JArray xs) = Inr r \<longleftrightarrow>
      (\<exists>ys. r = JArray ys \<and> map (parseNestedJson stack) xs = map Inr ys)) \<and>
   (own_keys_ok ps \<longrightarrow>
      (parseNestedJson (Suc stack) (JObject ps) = Inr r' \<longleftrightarrow>
         (\<exists>qs. r' = JObject qs \<and>
            map (\<lambda>(k, v). (k, parseNestedJson stack v)) ps = map (\<lambda>(k, y). (k, Inr y)) qs)))"
  using resolve_array_map [of stack xs r] resolve_object_map [of ps stack r'] by simp

text \<open>
  The key \<open>[1]\<close> is kept as a key although it is a JSON text; its value, the same text,
  is parsed. The array \<open>["true", 1]\<close> becomes \<open>[true, 1]\<close>.
\<close>

theorem resolve_structure_witness:
  "own_keys_ok ex_keys \<and>
   parseNestedJson 4 (JObject ex_keys) =
     Inr (JObject [(js ''[1]'', JArray [JNumber (js ''1'')]), (js ''b'', JBool True)]) \<and>
   parseNestedJson 4 (JArray [JString (js ''true''), JNumber (js ''1'')]) =
     Inr (JArray [JBool True, JNumber (js ''1'')])"
proof -
  have ok: "own_keys_ok ex_keys" by code_simp
  have a: "parseNestedJson 3 (JString (js ''[1]'')) = Inr (JArray [JNumber (js ''1'')])"
    by code_simp
  have b: "parseNestedJson 3 (JString (js ''true'')) = Inr (JBool True)" by code_simp
  have c: "parseNestedJson 3 (JNumber (js ''1'')) = Inr (JNumber (js ''1''))" by code_simp
  note t = resolve_structure
    [where stack = 3 and ps = ex_keys
       and r' = "JObject [(js ''[1]'', JArray [JNumber (js ''1'')]), (js ''b'', JBool True)]"
       and xs = "[JString (js ''true''), JNumber (js ''1'')]"
       and r = "JArray [JBool True, JNumber (js ''1'')]"]
  have four: "Suc 3 = 4" by simp
  from a b have "map (\<lambda>(k, v). (k, parseNestedJson 3 v)) ex_keys =
      map (\<lambda>(k, y). (k, Inr y)) [(js ''[1]'', JArray [JNumber (js ''1'')]), (js ''b'', JBool True)]"
    by (simp add: ex_keys_def)
  with t ok have "parseNestedJson (Suc 3) (JObject ex_keys) =
     Inr (JObject [(js ''[1]'', JArray [JNumber (js ''1'')]), (js ''b'', JBool True)])"
    by blast
  moreover from b c have "map (parseNestedJson 3) [JString (js ''true''), JNumber (js ''1'')] =
      map Inr [JBool True, JNumber (js ''1'')]" by simp
  with t have "parseNestedJson (Suc 3) (JArray [JString (js ''true''), JNumber (js ''1'')]) =
     Inr (JArray [JBool True, JNumber (js ''1'')])"
    by blast
  ultimately show ?thesis using ok unfolding four by blast
qed



text \<open>
  Claim C5, as stated, fails: it says that the resolver iterates or bounds its recursion
  depth and leaves a string unresolved beyond the bound rather than crash. The function
  has no bound of its own and it does crash. A raw text of \<open>2 * stack + 2\<close> brackets parses
  to the empty array inside \<open>stack\<close> arrays, and the call on that value, with room for
  \<open>stack\<close> activations, throws \<open>RangeError\<close>. With more room the same text, given as a
  string, is resolved all the way down, however deep: nothing but the stack stops the
  recursion.
\<close>

theorem resolver_depth_guard_counterexample:
  "\<forall>stack. JSON_parse (nest_text stack) = Some (nest_array stack) \<and>
     length (nest_text stack) = 2 * stack + 2 \<and>
     parseNestedJson stack (nest_array stack) = Inl RangeError \<and>
     parseNestedJson (stack + 2) (JString (nest_text stack)) = Inr (nest_array stack)"
  using JSON_parse_nest_text nest_array_overflow nest_text_resolved
  by (simp add: nest_text_def)

text \<open>
  Claim C5, amended: the resolver has no depth guard; its depth is bounded by the call
  stack of the engine alone. It makes one nested call for every level of nesting or of
  encoding (\<open>n + 2\<close> for the text of \<open>n + 1\<close> nested arrays), and resolves everything exactly
  when the stack has room for \<open>call_depth\<close> activations. When the room ends below a string,
  the \<open>catch\<close> of that string returns the string unresolved, as after a parse failure.
  When it ends inside an array or an object that is not inside a string, the
  \<open>RangeError\<close> goes through to the caller.
\<close>

theorem resolver_stack_bound:
  "call_depth (JString (nest_text n)) = n + 2 \<and>
   parseNestedJson (n + 2) (JString (nest_text n)) = Inr (nest_array n) \<and>
   (JSON_parse s = Some v \<and> parseNestedJson stack v = Inl e \<longrightarrow>
      parseNestedJson (Suc stack) (JString s) = Inr (JString s)) \<and>
   (x \<in> set xs \<and> parseNestedJson stack x = Inl e \<longrightarrow>
      parseNestedJson (Suc stack) (JArray xs) = Inl RangeError) \<and>
   ((k, x) \<in> set ps \<and> parseNestedJson stack x = Inl e \<longrightarrow>
      parseNestedJson (Suc stack) (JObject ps) = Inl RangeError) \<and>
   (js_value_ok w \<longrightarrow>
      ((\<exists>r. parseNestedJson stack w = Inr r \<and> no_json_strings r) \<longleftrightarrow> call_depth w \<le> stack))"
proof (intro conjI impI)
  show "call_depth (JString (nest_text n)) = n + 2"
    by (simp add: JSON_parse_nest_text call_depth_nest_array)
  show "parseNestedJson (n + 2) (JString (nest_text n)) = Inr (nest_array n)"
    using nest_text_resolved [of n] by simp
  show "parseNestedJson (Suc stack) (JString s) = Inr (JString s)"
    if "JSON_parse s = Some v \<and> parseNestedJson stack v = Inl e"
    using that by simp
  show "parseNestedJson (Suc stack) (JArray xs) = Inl RangeError"
    if "x \<in> set xs \<and> parseNestedJson stack x = Inl e"
    using that resolve_array_throws [of x xs stack e] by blast
  show "parseNestedJson (Suc stack) (JObject ps) = Inl RangeError"
    if "(k, x) \<in> set ps \<and> parseNestedJson stack x = Inl e"
    using that resolve_object_throws [of k x ps stack e] by blast
  show "(\<exists>r. parseNestedJson stack w = Inr r \<and> no_json_strings r) \<longleftrightarrow> call_depth w \<le> stack"
    if ok: "js_value_ok w"
  proof
    assume "\<exists>r. parseNestedJson stack w = Inr r \<and> no_json_strings r"
    then obtain r where r: "parseNestedJson stack w = Inr r" "no_json_strings r" by blast
    show "call_depth w \<le> stack"
    proof (rule ccontr)
      assume "\<not> call_depth w \<le> stack"
      then have "stack < call_depth w" by simp
      from stack_too_small [OF ok this r(1)] r(2) show False by simp
    qed
  next
    assume "call_depth w \<le> stack"
    from enough_stack [OF this] show "\<exists>r. parseNestedJson stack w = Inr r \<and> no_json_strings r"
      by blast
  qed
qed

text \<open>
  The text \<open>[[]]\<close>: as a string with room for two activations it comes back unresolved,
  with room for three it is resolved; the array itself, and an object, with room for one
  activation throw.
\<close>

theorem resolver_stack_bound_witness:
  "JSON_parse (js ''[[]]'') = Some (JArray [JArray []]) \<and>
   parseNestedJson 1 (JArray [JArray []]) = Inl RangeError \<and>
   parseNestedJson 2 (JString (js ''[[]]'')) = Inr (JString (js ''[[]]'')) \<and>
   parseNestedJson 3 (JString (js ''[[]]'')) = Inr (JArray [JArray []]) \<and>
   parseNestedJson 1 (JObject [(js ''a'', JNull)]) = Inl RangeError \<and>
   js_value_ok (JArray [JArray []]) \<and> call_depth (JArray [JArray []]) \<le> 2 \<and>
   (\<exists>r. parseNestedJson 2 (JArray [JArray []]) = Inr r \<and> no_json_strings r)"
proof -
  have p: "JSON_parse (js ''[[]]'') = Some (JArray [JArray []])" by code_simp
  have z: "parseNestedJson 0 (JArray []) = Inl RangeError" by simp
  have z': "parseNestedJson 0 JNull = Inl RangeError" by simp
  have ok: "js_value_ok (JArray [JArray []])" by simp
  have d: "call_depth (JArray [JArray []]) \<le> 2" by simp
  have tx: "nest_text 1 = js ''[[]]''" by code_simp
  have arr: "nest_array 1 = JArray [JArray []]" by simp
  have m: "JArray [] \<in> set [JArray []]" by simp
  have m': "(js ''a'', JNull) \<in> set [(js ''a'', JNull)]" by simp
  note t = resolver_stack_bound
    [where n = 1 and s = "js ''[[]]''" and v = "JArray [JArray []]" and stack = 1
       and e = RangeError and x = "JArray []" and xs = "[JArray []]"
       and k = "js ''a''" and ps = "[(js ''a'', JNull)]" and w = "JArray [JArray []]"]
  note u = resolver_stack_bound
    [where n = 1 and s = "js ''[[]]''" and v = "JArray [JArray []]" and stack = 0
       and e = RangeError and x = "JArray []" and xs = "[JArray []]"
       and k = "js ''a''" and ps = "[(js ''a'', JNull)]" and w = "JArray [JArray []]"]
  note o = resolver_stack_bound
    [where n = 1 and s = "js ''[[]]''" and v = "JArray [JArray []]" and stack = 0
       and e = RangeError and x = JNull and xs = "[JNull]"
       and k = "js ''a''" and ps = "[(js ''a'', JNull)]" and w = "JArray [JArray []]"]
  note w = resolver_stack_bound
    [where n = 1 and s = "js ''[[]]''" and v = "JArray [JArray []]" and stack = 2
       and e = RangeError and x = "JArray []" and xs = "[JArray []]"
       and k = "js ''a''" and ps = "[(js ''a'', JNull)]" and w = "JArray [JArray []]"]
  have n1: "Suc 0 = 1" and n2: "Suc 1 = 2" and n3: "1 + 2 = (3::nat)" by simp_all
  from u z m have "parseNestedJson (Suc 0) (JArray [JArray []]) = Inl RangeError" by blast
  then have one: "parseNestedJson 1 (JArray [JArray []]) = Inl RangeError" unfolding n1 .
  from o z' m' have "parseNestedJson (Suc 0) (JObject [(js ''a'', JNull)]) = Inl RangeError"
    by blast
  then have obj: "parseNestedJson 1 (JObject [(js ''a'', JNull)]) = Inl RangeError"
    unfolding n1 .
  from t p one have "parseNestedJson (Suc 1) (JString (js ''[[]]'')) = Inr (JString (js ''[[]]''))"
    by blast
  then have two: "parseNestedJson 2 (JString (js ''[[]]'')) = Inr (JString (js ''[[]]''))"
    unfolding n2 .
  from t have "parseNestedJson (1 + 2) (JString (nest_text 1)) = Inr (nest_array 1)"
    by (rule conjunct2 [THEN conjunct1])
  then have three: "parseNestedJson 3 (JString (js ''[[]]'')) = Inr (JArray [JArray []])"
    unfolding tx arr n3 .
  from w ok d have ex: "\<exists>r. parseNestedJson 2 (JArray [JArray []]) = Inr r \<and> no_json_strings r"
    by blast
  from p one obj two three ok d ex show ?thesis by blast
qed

section \<open>The claim on the parse step\<close>

text \<open>
  Claim C9: when the raw text does not parse, the parse step stores the message of the
  error and changes nothing else, so the resolved value stays the last one that was
  computed; through any series of texts that do not parse it stays the same. The
  resolved value is replaced, and the message cleared, only when the text parses and
  the resolver returns; when the text parses and the resolver throws, the \<open>catch\<close> stores
  the message of that error and the resolved value stays as well.
\<close>

theorem parse_failure_keeps_output:
  "(JSON_parse (input st) = None \<longrightarrow>
      handleParse message stack st = st\<lparr>error := message (SyntaxError (input st))\<rparr> \<and>
      parsed (handleParse message stack st) = parsed st) \<and>
   (JSON_parse (input st) = Some obj \<and> parseNestedJson stack obj = Inr r \<longrightarrow>
      handleParse message stack st = st\<lparr>parsed := r, error := []\<rparr>) \<and>
   (JSON_parse (input st) = Some obj \<and> parseNestedJson stack obj = Inl e \<longrightarrow>
      e = RangeError \<and> handleParse message stack st = st\<lparr>error := message RangeError\<rparr>) \<and>
   (parsed (handleParse message stack st) \<noteq> parsed st \<longrightarrow>
      (\<exists>obj. JSON_parse (input st) = Some obj \<and>
         parseNestedJson stack obj = Inr (parsed (handleParse message stack st)))) \<and>
   ((\<forall>text \<in> set texts. JSON_parse text = None) \<longrightarrow>
      parsed (edits message stack texts st) = parsed st)"
proof (intro conjI impI)
  show "handleParse message stack st = st\<lparr>error := message (SyntaxError (input st))\<rparr>"
    if "JSON_parse (input st) = None" using that by (simp add: handleParse_def)
  show "parsed (handleParse message stack st) = parsed st"
    if "JSON_parse (input st) = None" using that by (simp add: handleParse_def)
  show "handleParse message stack st = st\<lparr>parsed := r, error := []\<rparr>"
    if "JSON_parse (input st) = Some obj \<and> parseNestedJson stack obj = Inr r"
    using that by (simp add: handleParse_def)
  show "e = RangeError"
    if "JSON_parse (input st) = Some obj \<and> parseNestedJson stack obj = Inl e"
    using that resolve_error [of stack obj e] by blast
  then show "handleParse message stack st = st\<lparr>error := message RangeError\<rparr>"
    if "JSON_parse (input st) = Some obj \<and> parseNestedJson stack obj = Inl e"
    using that by (simp add: handleParse_def)
  show "\<exists>obj. JSON_parse (input st) = Some obj \<and>
         parseNestedJson stack obj = Inr (parsed (handleParse message stack st))"
    if "parsed (handleParse message stack st) \<noteq> parsed st"
    using that by (auto simp: handleParse_def split: option.splits sum.splits)
  show "parsed (edits message stack texts st) = parsed st"
    if "\<forall>text \<in> set texts. JSON_parse text = None"
    using that by (induction texts arbitrary: st) (simp_all add: onChange_def handleParse_def)
qed

text \<open>
  A state whose text is cut short; two more texts that do not parse; then \<open>[1]\<close>, which
  parses and is resolved; and \<open>[[]]\<close> with room for one activation only, which parses and
  is not.
\<close>

theorem parse_failure_keeps_output_witness:
  "JSON_parse (input ex_state) = None \<and>
   handleParse ex_message 3 ex_state =
     \<lparr>input = js ''{\"a\":'', parsed = ex_john, error = js ''Unexpected end of JSON input''\<rparr> \<and>
   parsed (edits ex_message 3 [js ''{'', js ''{\"a\"''] ex_state) = ex_john \<and>
   handleParse ex_message 3 (ex_state\<lparr>input := js ''[1]''\<rparr>) =
     \<lparr>input = js ''[1]'', parsed = JArray [JNumber (js ''1'')], error = []\<rparr> \<and>
   handleParse ex_message 1 (ex_state\<lparr>input := js ''[[]]''\<rparr>) =
     \<lparr>input = js ''[[]]'', parsed = ex_john, error = js ''Maximum call stack size exceeded''\<rparr>"
proof -
  have bad: "JSON_parse (input ex_state) = None" by (simp add: ex_state_def) code_simp
  have t1: "JSON_parse (js ''{'') = None" by code_simp
  have t2: "JSON_parse (js ''{\"a\"'') = None" by code_simp
  have good: "JSON_parse (input (ex_state\<lparr>input := js ''[1]''\<rparr>)) = Some (JArray [JNumber (js ''1'')])"
    by simp code_simp
  have r: "parseNestedJson 3 (JArray [JNumber (js ''1'')]) = Inr (JArray [JNumber (js ''1'')])"
    by code_simp
  have deep: "JSON_parse (input (ex_state\<lparr>input := js ''[[]]''\<rparr>)) = Some (JArray [JArray []])"
    by simp code_simp
  have thrown: "parseNestedJson 1 (JArray [JArray []]) = Inl RangeError" by code_simp
  from parse_failure_keeps_output
    [where st = ex_state and message = ex_message and stack = 3
       and texts = "[js ''{'', js ''{\"a\"'']"] bad t1 t2
  have a: "handleParse ex_message 3 ex_state =
      ex_state\<lparr>error := ex_message (SyntaxError (input ex_state))\<rparr>"
    and b: "parsed (edits ex_message 3 [js ''{'', js ''{\"a\"''] ex_state) = parsed ex_state"
    by simp_all
  from parse_failure_keeps_output
    [where st = "ex_state\<lparr>input := js ''[1]''\<rparr>" and message = ex_message and stack = 3
       and obj = "JArray [JNumber (js ''1'')]" and r = "JArray [JNumber (js ''1'')]"] good r
  have c: "handleParse ex_message 3 (ex_state\<lparr>input := js ''[1]''\<rparr>) =
      ex_state\<lparr>input := js ''[1]'', parsed := JArray [JNumber (js ''1'')], error := []\<rparr>"
    by simp
  from parse_failure_keeps_output
    [where st = "ex_state\<lparr>input := js ''[[]]''\<rparr>" and message = ex_message and stack = 1
       and obj = "JArray [JArray []]" and e = RangeError] deep thrown
  have d: "handleParse ex_message 1 (ex_state\<lparr>input := js ''[[]]''\<rparr>) =
      ex_state\<lparr>input := js ''[[]]'', error := ex_message RangeError\<rparr>"
    by simp
  from a b c d bad show ?thesis by (simp add: ex_state_def ex_message_def)
qed

end
